theory Spec2Isabelle
  imports Main "HOL-Library.Char_ord" "HOL-Library.List_Lexorder"
begin

section \<open>Python strings\<close>

text \<open>
  A Python \<open>str\<close> is modelled as a \<open>string\<close>; one \<open>char\<close> stands for one code point in
  the range 0..255 (Latin-1).  On this range the order of \<open>char\<close> is the order of the code
  points, so the lexicographic order of \<open>string\<close> is the order Python's \<open>sorted\<close> uses.
\<close>

definition startswith :: "string \<Rightarrow> string \<Rightarrow> bool" where
  "startswith s p = (take (length p) s = p)"

definition endswith :: "string \<Rightarrow> string \<Rightarrow> bool" where
  "endswith s p = (length p \<le> length s \<and> drop (length s - length p) s = p)"

text \<open>\<open>str_in p s\<close> is Python's \<open>p in s\<close> on strings: \<open>p\<close> occurs in \<open>s\<close> as a substring.\<close>

fun str_in :: "string \<Rightarrow> string \<Rightarrow> bool" where
  "str_in p [] = (p = [])"
| "str_in p (c # cs) = (startswith (c # cs) p \<or> str_in p cs)"

text \<open>\<open>str.isspace\<close> on one code point below 256; also the class \<open>\s\<close> of \<open>re\<close>.\<close>

definition isspace :: "char \<Rightarrow> bool" where
  "isspace c = (let n = (of_char c :: nat)
                in (9 \<le> n \<and> n \<le> 13) \<or> (28 \<le> n \<and> n \<le> 32) \<or> n = 133 \<or> n = 160)"

text \<open>\<open>s.strip()\<close> and \<open>s.strip(chars)\<close>.\<close>

definition strip :: "string \<Rightarrow> string" where
  "strip s = rev (dropWhile isspace (rev (dropWhile isspace s)))"

definition strip_chars :: "string \<Rightarrow> string \<Rightarrow> string" where
  "strip_chars cs s =
     rev (dropWhile (\<lambda>c. c \<in> set cs) (rev (dropWhile (\<lambda>c. c \<in> set cs) s)))"

text \<open>\<open>str.lower\<close> below 256: A-Z and the Latin-1 capitals (not the multiplication sign).\<close>

definition lower_char :: "char \<Rightarrow> char" where
  "lower_char c = (let n = (of_char c :: nat)
                   in if (65 \<le> n \<and> n \<le> 90) \<or> (192 \<le> n \<and> n \<le> 222 \<and> n \<noteq> 215)
                      then char_of (n + 32) else c)"

definition lower :: "string \<Rightarrow> string" where
  "lower s = map lower_char s"

text \<open>\<open>text.replace("\n", " ")\<close>.\<close>

definition replace_newlines :: "string \<Rightarrow> string" where
  "replace_newlines s = map (\<lambda>c. if c = CHR 0x0A then CHR 0x20 else c) s"

text \<open>\<open>x or ""\<close> for an attribute value that may be \<open>None\<close>.\<close>

definition or_empty :: "string option \<Rightarrow> string" where
  "or_empty a = (case a of None \<Rightarrow> [] | Some s \<Rightarrow> s)"

section \<open>Errors\<close>

text \<open>
  The exceptions the program can meet: the browser layer's errors and timeouts, the
  \<open>ValueError\<close> of \<open>urlparse\<close>, the \<open>ValueError\<close> and \<open>OverflowError\<close> of \<open>time.sleep\<close>,
  the errors of \<open>requests\<close>, and file errors.
\<close>

datatype error = PlaywrightError | PlaywrightTimeout | ValueError | OverflowError
  | RequestException | OSError

section \<open>URL helpers\<close>

definition LOGIN_SLUGS :: "string list" where
  "LOGIN_SLUGS = [''x.com/login'', ''x.com/i/flow'', ''x.com/account/'']"

definition is_login_page :: "string \<Rightarrow> bool" where
  "is_login_page url = list_ex (\<lambda>slug. str_in slug url) LOGIN_SLUGS"

text \<open>
  \<open>urllib.parse.urlparse\<close> belongs to the Python library, not to the program.  The
  functions that call it take it as the parameter \<open>up\<close>: it returns the two components the
  program reads, or raises.  The theorems about the program hold for every such function.
\<close>

record url_parts =
  netloc :: string
  path :: string

type_synonym urlparse_fn = "string \<Rightarrow> error + url_parts"

definition is_article_url :: "urlparse_fn \<Rightarrow> string \<Rightarrow> error + bool" where
  "is_article_url up url =
     (case up url of
        Inl e \<Rightarrow> Inl e
      | Inr parsed \<Rightarrow>
          Inr (str_in ''/articles/'' (path parsed) \<and>
               (endswith (lower (netloc parsed)) ''x.com'' \<or>
                endswith (lower (netloc parsed)) ''twitter.com'')))"

subsection \<open>A model of \<open>urlparse\<close>\<close>

text \<open>
  The library function as CPython 3.12 defines it (\<open>urlsplit\<close> followed by the split of
  the parameters of the last path segment), used where a concrete URL is evaluated.  Not
  modelled: the validation of a bracketed host and the check of the normalised netloc,
  which can only raise for hosts with brackets or code points above 255.
\<close>

definition scheme_char :: "char \<Rightarrow> bool" where
  "scheme_char c = (let n = (of_char c :: nat)
                    in (97 \<le> n \<and> n \<le> 122) \<or> (65 \<le> n \<and> n \<le> 90) \<or> (48 \<le> n \<and> n \<le> 57)
                       \<or> c = CHR ''+'' \<or> c = CHR ''-'' \<or> c = CHR ''.'')"

definition ascii_alpha :: "char \<Rightarrow> bool" where
  "ascii_alpha c = (let n = (of_char c :: nat)
                    in (97 \<le> n \<and> n \<le> 122) \<or> (65 \<le> n \<and> n \<le> 90))"

definition uses_params :: "string list" where
  "uses_params = ['''', ''ftp'', ''hdl'', ''prospero'', ''http'', ''imap'', ''https'',
                  ''shttp'', ''rtsp'', ''rtspu'', ''sip'', ''sips'', ''mms'', ''sftp'', ''tel'']"

text \<open>The scheme and the rest, when the text before the first colon is a scheme.\<close>

definition split_scheme :: "string \<Rightarrow> string \<times> string" where
  "split_scheme url =
     (let pre = takeWhile (\<lambda>c. c \<noteq> CHR '':'') url
      in if length pre < length url \<and> pre \<noteq> [] \<and> ascii_alpha (hd pre) \<and> list_all scheme_char pre
         then (lower pre, drop (length pre + 1) url)
         else ([], url))"

definition split_params :: "string \<Rightarrow> string" where
  "split_params url =
     (if CHR ''/'' \<in> set url
      then (let last_seg = rev (takeWhile (\<lambda>c. c \<noteq> CHR ''/'') (rev url));
                keep = takeWhile (\<lambda>c. c \<noteq> CHR '';'') last_seg
            in take (length url - length last_seg + length keep) url)
      else takeWhile (\<lambda>c. c \<noteq> CHR '';'') url)"

definition urlparse :: urlparse_fn where
  "urlparse url0 =
     (let url1 = dropWhile (\<lambda>c. (of_char c :: nat) \<le> 32) url0;
          url2 = filter (\<lambda>c. c \<noteq> CHR 0x09 \<and> c \<noteq> CHR 0x0D \<and> c \<noteq> CHR 0x0A) url1;
          (scheme, url3) = split_scheme url2;
          (nl, url4) =
            (if take 2 url3 = ''//''
             then (let rest = drop 2 url3;
                       n = takeWhile (\<lambda>c. c \<noteq> CHR ''/'' \<and> c \<noteq> CHR ''?'' \<and> c \<noteq> CHR ''#'') rest
                   in (n, drop (length n) rest))
             else ([], url3));
          url5 = takeWhile (\<lambda>c. c \<noteq> CHR ''#'') url4;
          url6 = takeWhile (\<lambda>c. c \<noteq> CHR ''?'') url5;
          p = (if scheme \<in> set uses_params \<and> CHR '';'' \<in> set url6
               then split_params url6 else url6)
      in if (CHR ''['' \<in> set nl) \<noteq> (CHR '']'' \<in> set nl)
         then Inl ValueError
         else Inr \<lparr>netloc = nl, path = p\<rparr>)"

section \<open>The item parser\<close>

text \<open>
  The regular expression \<open>https?://[^\s"'<>\)]+\<close> of \<open>_parse_tweet\<close>: \<open>url_char\<close> is its
  character class, \<open>match_url\<close> the match at the start of a string (the optional \<open>s\<close> cannot
  be confused with the colon, the class is taken greedily and needs one character), and
  \<open>findall_urls\<close> is \<open>re.findall\<close>: the matches from left to right, each search starting
  where the last match ended.
\<close>

definition url_char :: "char \<Rightarrow> bool" where
  "url_char c = (\<not> isspace c \<and> c \<noteq> CHR 0x22 \<and> c \<noteq> CHR 0x27 \<and> c \<noteq> CHR ''<''
                 \<and> c \<noteq> CHR ''>'' \<and> c \<noteq> CHR '')'')"

definition match_url :: "string \<Rightarrow> string option" where
  "match_url s =
     (let pre = (if startswith s ''https://'' then Some ''https://''
                 else if startswith s ''http://'' then Some ''http://'' else None)
      in case pre of
           None \<Rightarrow> None
         | Some p \<Rightarrow>
             (let body = takeWhile url_char (drop (length p) s)
              in if body = [] then None else Some (p @ body)))"

function findall_urls :: "string \<Rightarrow> string list" where
  "findall_urls [] = []"
| "findall_urls (c # cs) =
     (case match_url (c # cs) of
        None \<Rightarrow> findall_urls cs
      | Some m \<Rightarrow> m # findall_urls (drop (length m) (c # cs)))"
  by pat_completeness auto
termination
proof (relation "measure length")
  fix c cs m
  assume "match_url (c # cs) = Some m"
  then have "m \<noteq> []"
    by (auto simp: match_url_def Let_def split: if_splits option.splits)
  then show "(drop (length m) (c # cs), c # cs) \<in> measure length"
    by (cases m) auto
qed auto

text \<open>
  \<open>re.sub(r'[&?]name=\w+', '', src)\<close>: \<open>word_char\<close> is the class \<open>\w\<close> below 256, and
  \<open>strip_name_param\<close> deletes every match, scanning from left to right.
\<close>

definition word_char :: "char \<Rightarrow> bool" where
  "word_char c = (let n = (of_char c :: nat)
                  in (48 \<le> n \<and> n \<le> 57) \<or> (65 \<le> n \<and> n \<le> 90) \<or> (97 \<le> n \<and> n \<le> 122) \<or> n = 95
                     \<or> n = 170 \<or> n = 178 \<or> n = 179 \<or> n = 181 \<or> n = 185 \<or> n = 186
                     \<or> (188 \<le> n \<and> n \<le> 190) \<or> (192 \<le> n \<and> n \<le> 214)
                     \<or> (216 \<le> n \<and> n \<le> 246) \<or> (248 \<le> n \<and> n \<le> 255))"

definition match_name_param :: "string \<Rightarrow> nat option" where
  "match_name_param s =
     (if startswith s ''&name='' \<or> startswith s ''?name=''
      then (let body = takeWhile word_char (drop 6 s)
            in if body = [] then None else Some (6 + length body))
      else None)"

function strip_name_param :: "string \<Rightarrow> string" where
  "strip_name_param [] = []"
| "strip_name_param (c # cs) =
     (case match_name_param (c # cs) of
        None \<Rightarrow> c # strip_name_param cs
      | Some n \<Rightarrow> strip_name_param (drop n (c # cs)))"
  by pat_completeness auto
termination
proof (relation "measure length")
  fix c cs n
  assume "match_name_param (c # cs) = Some n"
  then have "0 < n"
    by (auto simp: match_name_param_def Let_def split: if_splits)
  then show "(drop n (c # cs), c # cs) \<in> measure length"
    by (cases n) auto
qed auto

text \<open>
  A bookmark record, the \<open>dict\<close> that \<open>_parse_tweet\<close> returns.  The key \<open>text\<close> is the field
  \<open>tweet_text\<close>.  \<open>timestamp\<close> is \<open>None\<close> when the \<open>time\<close> element has no \<open>datetime\<close>
  attribute.
\<close>

record tweet =
  timestamp :: "string option"
  author_name :: string
  author_handle :: string
  tweet_text :: string
  tweet_url :: string
  article_url :: string
  article_text :: string
  image_urls :: "string list"
  urls_raw :: "string list"

text \<open>
  A rendered feed item as the parser sees it: what each query on the element handle
  answers.  \<open>art_error = Some e\<close> is a handle on which the browser layer raises \<open>e\<close>.
\<close>

record time_element =
  datetime :: "string option"
  closest_a_href :: string

record art =
  art_error :: "error option"
  handle_el :: "string option option"
  name_el :: "string option"
  text_el :: "string option"
  time_el :: "time_element option"
  anchors :: "string option list"
  photo_imgs :: "string option list"

text \<open>
  The loop over the anchors \<open>a[href^="http"]\<close>; the state is the pair of \<open>article_url\<close> and \<open>raw_urls\<close>.
\<close>

fun scan_anchors ::
  "urlparse_fn \<Rightarrow> string option list \<Rightarrow> string \<times> string set \<Rightarrow> error + (string \<times> string set)"
where
  "scan_anchors up [] acc = Inr acc"
| "scan_anchors up (el # els) (aurl, raw) =
     (let href = or_empty el
      in case is_article_url up href of
           Inl e \<Rightarrow> Inl e
         | Inr True \<Rightarrow> scan_anchors up els ((if aurl = [] then href else aurl), raw)
         | Inr False \<Rightarrow>
             (if str_in ''t.co'' href
              then scan_anchors up els (aurl, insert href raw)
              else (case up href of
                      Inl e \<Rightarrow> Inl e
                    | Inr parsed \<Rightarrow>
                        (if lower (netloc parsed) \<notin> {''x.com'', ''twitter.com''}
                         then scan_anchors up els (aurl, insert href raw)
                         else scan_anchors up els (aurl, raw)))))"

definition scan_images :: "string option list \<Rightarrow> string list" where
  "scan_images imgs =
     map (\<lambda>src. strip_name_param src @ ''?name=orig'')
       (filter (\<lambda>src. src \<noteq> [] \<and> str_in ''pbs.twimg.com/media'' src) (map or_empty imgs))"

definition parse_tweet :: "urlparse_fn \<Rightarrow> art \<Rightarrow> error + tweet" where
  "parse_tweet up a =
     (case art_error a of
        Some e \<Rightarrow> Inl e
      | None \<Rightarrow>
          (let handle = (case handle_el a of None \<Rightarrow> [] | Some h \<Rightarrow> strip_chars ''/'' (or_empty h));
               name = (case name_el a of None \<Rightarrow> [] | Some n \<Rightarrow> n);
               txt = (case text_el a of None \<Rightarrow> [] | Some t \<Rightarrow> t);
               ts = (case time_el a of None \<Rightarrow> Some [] | Some t \<Rightarrow> datetime t);
               turl = (case time_el a of None \<Rightarrow> [] | Some t \<Rightarrow> closest_a_href t)
           in case scan_anchors up (anchors a) ([], set (findall_urls txt)) of
                Inl e \<Rightarrow> Inl e
              | Inr (aurl, raw) \<Rightarrow>
                  Inr \<lparr>timestamp = ts,
                       author_name = name,
                       author_handle = (if handle \<noteq> [] then ''@'' @ handle else []),
                       tweet_text = strip (replace_newlines txt),
                       tweet_url = turl,
                       article_url = aurl,
                       article_text = [],
                       image_urls = scan_images (photo_imgs a),
                       urls_raw = sorted_list_of_set raw\<rparr>))"

section \<open>The article fetcher\<close>

text \<open>
  What the auxiliary tab answers to each call of \<open>fetch_article_content\<close>: \<open>None\<close> in
  an \<open>error option\<close> is a call that returns, \<open>Some e\<close> one that raises \<open>e\<close>.  A query
  answers no element, or an element together with what \<open>inner_text\<close> gives on it.  The
  first argument of the function stands for \<open>page.context\<close>: the tab it opens for a URL.
\<close>

record aux_page =
  new_page_raises :: "error option"
  goto_raises :: "error option"
  query_article_body :: "error + (error + string) option"
  query_article :: "error + (error + string) option"
  close_raises :: "error option"

text \<open>What became of the tab when the function returns.\<close>

datatype tab_status = NotOpened | LeftOpen | Closed

text \<open>
  The body of the \<open>try\<close> block, statement by statement; every exception goes to the
  single handler, which returns the empty string.  The result is the returned string and
  the status of the tab.
\<close>

definition fetch_article_content :: "(string \<Rightarrow> aux_page) \<Rightarrow> string \<Rightarrow> string \<times> tab_status" where
  "fetch_article_content new_tab url =
     (let ap = new_tab url in
      case new_page_raises ap of
        Some e \<Rightarrow> ([], NotOpened)
      | None \<Rightarrow>
     (case goto_raises ap of
        Some e \<Rightarrow> ([], LeftOpen)
      | None \<Rightarrow>
     (case (case query_article_body ap of
              Inl e \<Rightarrow> Inl e
            | Inr (Some el) \<Rightarrow> Inr (Some el)
            | Inr None \<Rightarrow> query_article ap) of
        Inl e \<Rightarrow> ([], LeftOpen)
      | Inr body \<Rightarrow>
     (case (case body of None \<Rightarrow> Inr [] | Some el \<Rightarrow> el) of
        Inl e \<Rightarrow> ([], LeftOpen)
      | Inr txt \<Rightarrow>
     (case close_raises ap of
        Some e \<Rightarrow> ([], LeftOpen)
      | None \<Rightarrow> (strip txt, Closed))))))"

section \<open>The collector\<close>

text \<open>
  The browsing surface during one call of \<open>collect_bookmarks\<close>: the answer of each call
  the function makes on the page.  \<open>query_tweets i\<close> is the list of rendered feed items at
  pass \<open>i\<close>, \<open>scroll_raises i\<close> the scroll after pass \<open>i\<close>.  \<open>sigint_before i\<close> is the
  value of the flag \<open>stop_scrolling\<close> read at the top of pass \<open>i\<close> (the handler sets it on
  Ctrl+C), \<open>sigint_late\<close> says that it is set when read after the loop.  \<open>article_tab n url\<close>
  is the tab of the \<open>n\<close>-th article fetch, opened on \<open>url\<close>.
\<close>

record page =
  goto_bookmarks_raises :: "error option"
  location_href :: "error + string"
  page_url :: string
  wait_for_tweet :: "error option"
  query_tweets :: "nat \<Rightarrow> error + art list"
  scroll_raises :: "nat \<Rightarrow> error option"
  sigint_before :: "nat \<Rightarrow> bool"
  sigint_late :: bool
  article_tab :: "nat \<Rightarrow> string \<Rightarrow> aux_page"

text \<open>The variables of the scroll loop.\<close>

record loop_state =
  bookmarks :: "tweet list"
  seen_ids :: "string set"
  no_new_count :: nat

definition tid :: "tweet \<Rightarrow> string" where
  "tid t = (if tweet_url t \<noteq> [] then tweet_url t else take 80 (tweet_text t))"

text \<open>
  The inner loop over the items of one pass.  The result is the lists and the count
  \<open>new_this_round\<close>.
\<close>

fun process_articles ::
  "urlparse_fn \<Rightarrow> art list \<Rightarrow> tweet list \<times> string set \<times> nat \<Rightarrow> tweet list \<times> string set \<times> nat"
where
  "process_articles up [] acc = acc"
| "process_articles up (a # as) (bs, seen, new_this_round) =
     (case parse_tweet up a of
        Inl e \<Rightarrow> process_articles up as (bs, seen, new_this_round)
      | Inr t \<Rightarrow>
          (if tid t \<in> seen
           then process_articles up as (bs, seen, new_this_round)
           else process_articles up as (bs @ [t], insert (tid t) seen, Suc new_this_round)))"

text \<open>
  The float \<open>scroll_delay\<close>, as \<open>time.sleep\<close> reads it: not a number; outside the range of
  the timestamp type (the infinities and the huge values); or a number of nanoseconds.
  \<open>time.sleep\<close> raises \<open>ValueError\<close> on the first, \<open>OverflowError\<close> on the second and
  \<open>ValueError\<close> on a negative number; otherwise it returns.  The sleeps of a constant
  length (2 seconds after the navigation, 1 second between two article fetches) return
  always and are left out.
\<close>

datatype delay = NotANumber | OutOfRange | Nanoseconds int

definition time_sleep :: "delay \<Rightarrow> error option" where
  "time_sleep d =
     (case d of
        NotANumber \<Rightarrow> Some ValueError
      | OutOfRange \<Rightarrow> Some OverflowError
      | Nanoseconds n \<Rightarrow> (if n < 0 then Some ValueError else None))"

text \<open>How the scroll loop ended.\<close>

datatype loop_exit = Cancelled | Exhausted | RangeDone

text \<open>
  The body of the loop at pass \<open>scroll_idx\<close>: it leaves the loop with \<open>break\<close>, goes on
  to the next pass, or an exception of the page leaves the function.
\<close>

datatype pass_result = Raise error | Break loop_exit loop_state | Continue loop_state

definition scroll_pass ::
  "urlparse_fn \<Rightarrow> page \<Rightarrow> delay \<Rightarrow> nat \<Rightarrow> loop_state \<Rightarrow> pass_result"
where
  "scroll_pass up pg scroll_delay scroll_idx st =
     (if sigint_before pg scroll_idx then Break Cancelled st
      else (case query_tweets pg scroll_idx of
              Inl e \<Rightarrow> Raise e
            | Inr articles \<Rightarrow>
                (case process_articles up articles (bookmarks st, seen_ids st, 0) of
                   (bs, seen, new_this_round) \<Rightarrow>
                     (if new_this_round \<noteq> 0
                      then (case scroll_raises pg scroll_idx of
                              Some e \<Rightarrow> Raise e
                            | None \<Rightarrow>
                                (case time_sleep scroll_delay of
                                   Some e \<Rightarrow> Raise e
                                 | None \<Rightarrow>
                                     Continue \<lparr>bookmarks = bs, seen_ids = seen,
                                               no_new_count = 0\<rparr>))
                      else (if no_new_count st + 1 \<ge> 5
                            then Break Exhausted
                                   \<lparr>bookmarks = bs, seen_ids = seen,
                                    no_new_count = no_new_count st + 1\<rparr>
                            else (case scroll_raises pg scroll_idx of
                                    Some e \<Rightarrow> Raise e
                                  | None \<Rightarrow>
                                      (case time_sleep scroll_delay of
                                         Some e \<Rightarrow> Raise e
                                       | None \<Rightarrow>
                                           Continue \<lparr>bookmarks = bs, seen_ids = seen,
                                                     no_new_count = no_new_count st + 1\<rparr>)))))))"

text \<open>
  The loop \<open>for scroll_idx in range(1, max_scrolls + 1)\<close>, entered at \<open>scroll_idx\<close>.  The
  result is the way the loop was left, the last pass it entered (\<open>scroll_idx - 1\<close> when
  the range is used up) and the variables.
\<close>

function scroll_loop ::
  "urlparse_fn \<Rightarrow> page \<Rightarrow> int \<Rightarrow> delay \<Rightarrow> nat \<Rightarrow> loop_state
     \<Rightarrow> error + (loop_exit \<times> nat \<times> loop_state)"
where
  "scroll_loop up pg max_scrolls scroll_delay scroll_idx st =
     (if max_scrolls < int scroll_idx then Inr (RangeDone, scroll_idx - 1, st)
      else (case scroll_pass up pg scroll_delay scroll_idx st of
              Raise e \<Rightarrow> Inl e
            | Break ex st' \<Rightarrow> Inr (ex, scroll_idx, st')
            | Continue st' \<Rightarrow> scroll_loop up pg max_scrolls scroll_delay (Suc scroll_idx) st'))"
  by pat_completeness auto
termination
  by (relation "measure (\<lambda>(up, pg, max_scrolls, scroll_delay, scroll_idx, st).
                           nat (max_scrolls + 1 - int scroll_idx))")
    auto

text \<open>
  The article phase.  The records of \<open>bookmarks\<close> are objects, each appended once, so a
  record is identified by its position in the list; \<open>article_bookmarks\<close> holds the
  positions of the records with an article URL.  The loop assigns \<open>article_text\<close> in the
  store and is instrumented with the positions written (\<open>writes\<close>) and the status of every
  tab (\<open>tabs\<close>); \<open>calls\<close> counts the fetches.
\<close>

record fetch_state =
  store :: "tweet list"
  writes :: "nat list"
  tabs :: "tab_status list"
  calls :: nat

fun fetch_loop :: "page \<Rightarrow> nat list \<Rightarrow> fetch_state \<Rightarrow> fetch_state" where
  "fetch_loop pg [] fs = fs"
| "fetch_loop pg (b # rest) fs =
     (case fetch_article_content (article_tab pg (calls fs)) (article_url (store fs ! b)) of
        (txt, status) \<Rightarrow>
          fetch_loop pg rest
            \<lparr>store = (store fs)[b := (store fs ! b)\<lparr>article_text := txt\<rparr>],
             writes = writes fs @ [b],
             tabs = tabs fs @ [status],
             calls = Suc (calls fs)\<rparr>)"

definition article_bookmarks :: "tweet list \<Rightarrow> nat list" where
  "article_bookmarks bs = filter (\<lambda>i. article_url (bs ! i) \<noteq> []) [0..<length bs]"

text \<open>
  The block \<open>if not no_articles and not stop_scrolling\<close> after the loop: the article
  phase runs, or the records stay as the loop left them.
\<close>

definition fetch_articles :: "page \<Rightarrow> bool \<Rightarrow> bool \<Rightarrow> tweet list \<Rightarrow> fetch_state" where
  "fetch_articles pg no_articles stop_scrolling bs =
     (let fs0 = \<lparr>store = bs, writes = [], tabs = [], calls = 0\<rparr>
      in if \<not> no_articles \<and> \<not> stop_scrolling
         then fetch_loop pg (article_bookmarks bs) fs0
         else fs0)"

text \<open>The state with which \<open>collect_bookmarks\<close> enters the loop.\<close>

definition init_state :: loop_state where
  "init_state = \<lparr>bookmarks = [], seen_ids = {}, no_new_count = 0\<rparr>"

text \<open>
  One run of the collector, with everything an observer can see of it: how and where the
  scroll loop ended, the records as they were appended, the writes of the article phase
  and the returned list.  The early returns give no trace.
\<close>

record collect_trace =
  exit_kind :: loop_exit
  last_pass :: nat
  appended :: "tweet list"
  article_writes :: "nat list"
  article_tabs :: "tab_status list"
  returned :: "tweet list"

definition collect_run ::
  "urlparse_fn \<Rightarrow> page \<Rightarrow> int \<Rightarrow> delay \<Rightarrow> bool \<Rightarrow> error + collect_trace option"
where
  "collect_run up pg max_scrolls scroll_delay no_articles =
     (case goto_bookmarks_raises pg of
        Some e \<Rightarrow> Inl e
      | None \<Rightarrow>
          (let real_url = (case location_href pg of Inl e \<Rightarrow> page_url pg | Inr u \<Rightarrow> u)
           in if is_login_page real_url then Inr None
              else (case wait_for_tweet pg of
                      Some e \<Rightarrow> Inr None
                    | None \<Rightarrow>
                        (case scroll_loop up pg max_scrolls scroll_delay 1 init_state of
                           Inl e \<Rightarrow> Inl e
                         | Inr (ex, idx, st) \<Rightarrow>
                             (let stop_scrolling = (ex = Cancelled \<or> sigint_late pg);
                                  fs = fetch_articles pg no_articles stop_scrolling (bookmarks st)
                              in Inr (Some \<lparr>exit_kind = ex, last_pass = idx,
                                            appended = bookmarks st,
                                            article_writes = writes fs,
                                            article_tabs = tabs fs,
                                            returned = store fs\<rparr>))))))"

definition collect_bookmarks ::
  "urlparse_fn \<Rightarrow> page \<Rightarrow> int \<Rightarrow> delay \<Rightarrow> bool \<Rightarrow> error + tweet list"
where
  "collect_bookmarks up pg max_scrolls scroll_delay no_articles =
     (case collect_run up pg max_scrolls scroll_delay no_articles of
        Inl e \<Rightarrow> Inl e
      | Inr None \<Rightarrow> Inr []
      | Inr (Some tr) \<Rightarrow> Inr (returned tr))"

section \<open>The link resolver\<close>

text \<open>
  \<open>requests.head(short_url, allow_redirects=True, ...)\<close> is the network: the parameter
  \<open>head\<close> gives the final URL of the response, or the exception the request raises
  (timeout, connection error, invalid URL).
\<close>

type_synonym head_fn = "string \<Rightarrow> error + string"

definition expand_tco_url :: "head_fn \<Rightarrow> string \<Rightarrow> string" where
  "expand_tco_url head short_url =
     (case head short_url of Inl e \<Rightarrow> short_url | Inr final_url \<Rightarrow> final_url)"

text \<open>
  The worker pool runs \<open>expand_tco_url\<close> on every submitted URL and the caller stores each
  result under its URL as the futures complete.  The model stores them in the order of
  submission; \<open>expand_urls_parallel_lookup\<close> below shows that the mapping is the same for
  every order of completion.
\<close>

definition expand_urls_parallel :: "head_fn \<Rightarrow> string list \<Rightarrow> (string \<rightharpoonup> string)" where
  "expand_urls_parallel head urls =
     (let tco_urls = filter (str_in ''t.co/'') urls
      in if tco_urls = [] then Map.empty
         else fold (\<lambda>u mapping. mapping(u \<mapsto> expand_tco_url head u)) tco_urls Map.empty)"

section \<open>The exporter\<close>

text \<open>
  A row is a \<open>dict\<close> from column names to values, in the order of insertion.  A value is
  \<open>None\<close> (a missing \<open>datetime\<close>), a string, or a list of strings.
\<close>

datatype val = VNone | VStr string | VList "string list"

type_synonym row = "(string \<times> val) list"


text \<open>\<open>sep.join(xs)\<close>.\<close>

fun join :: "string \<Rightarrow> string list \<Rightarrow> string" where
  "join sep [] = []"
| "join sep [x] = x"
| "join sep (x # y # ys) = x @ sep @ join sep (y # ys)"

definition base_row :: "tweet \<Rightarrow> row" where
  "base_row b =
     [(''timestamp'', (case timestamp b of None \<Rightarrow> VNone | Some ts \<Rightarrow> VStr ts)),
      (''author_name'', VStr (author_name b)),
      (''author_handle'', VStr (author_handle b)),
      (''text'', VStr (tweet_text b)),
      (''tweet_url'', VStr (tweet_url b)),
      (''article_url'', VStr (article_url b)),
      (''article_text'', VStr (article_text b))]"

text \<open>\<open>[url_map.get(u, u) for u in b["urls_raw"]]\<close>.\<close>

definition expanded_urls :: "(string \<rightharpoonup> string) \<Rightarrow> tweet \<Rightarrow> string list" where
  "expanded_urls url_map b =
     map (\<lambda>u. case url_map u of None \<Rightarrow> u | Some v \<Rightarrow> v) (urls_raw b)"

definition csv_row :: "(string \<rightharpoonup> string) \<Rightarrow> tweet \<Rightarrow> row" where
  "csv_row url_map b =
     base_row b @ [(''image_urls'', VStr (join '' | '' (image_urls b))),
                   (''urls_expanded'', VStr (join '' | '' (expanded_urls url_map b)))]"

definition jsonl_row :: "(string \<rightharpoonup> string) \<Rightarrow> tweet \<Rightarrow> row" where
  "jsonl_row url_map b =
     base_row b @ [(''image_urls'', VList (image_urls b)),
                   (''urls_expanded'', VList (expanded_urls url_map b))]"

text \<open>
  \<open>all_tco\<close> is a list made from a set: the shortened links of all records, each once
  (the order of a Python set is not fixed; the mapping does not depend on it).
\<close>

definition all_tco :: "tweet list \<Rightarrow> string list" where
  "all_tco bs = remdups (filter (str_in ''t.co/'') (concat (map urls_raw bs)))"

definition build_rows :: "head_fn \<Rightarrow> tweet list \<Rightarrow> row list \<times> row list" where
  "build_rows head bs =
     (let url_map = expand_urls_parallel head (all_tco bs)
      in (map (csv_row url_map) bs, map (jsonl_row url_map) bs))"

subsection \<open>JSON lines\<close>

text \<open>
  \<open>json.dumps(row, ensure_ascii=False)\<close> belongs to the Python library; this is its
  output on a row.  A string is quoted; the quote, the backslash and the control
  characters are escaped, everything else is written as it is.  The separators are
  \<open>", "\<close> and \<open>": "\<close>.
\<close>

definition hex_digit :: "nat \<Rightarrow> char" where
  "hex_digit n = ''0123456789abcdef'' ! n"

definition escape_char :: "char \<Rightarrow> string" where
  "escape_char c =
     (if c = CHR 0x22 then [CHR 0x5C, CHR 0x22]
      else if c = CHR 0x5C then [CHR 0x5C, CHR 0x5C]
      else if c = CHR 0x0A then [CHR 0x5C, CHR ''n'']
      else if c = CHR 0x0D then [CHR 0x5C, CHR ''r'']
      else if c = CHR 0x09 then [CHR 0x5C, CHR ''t'']
      else if c = CHR 0x08 then [CHR 0x5C, CHR ''b'']
      else if c = CHR 0x0C then [CHR 0x5C, CHR ''f'']
      else if (of_char c :: nat) < 32
      then [CHR 0x5C, CHR ''u'', CHR ''0'', CHR ''0'',
            hex_digit ((of_char c :: nat) div 16), hex_digit ((of_char c :: nat) mod 16)]
      else [c])"

definition dumps_str :: "string \<Rightarrow> string" where
  "dumps_str s = [CHR 0x22] @ concat (map escape_char s) @ [CHR 0x22]"

definition dumps_val :: "val \<Rightarrow> string" where
  "dumps_val v =
     (case v of
        VNone \<Rightarrow> ''null''
      | VStr s \<Rightarrow> dumps_str s
      | VList xs \<Rightarrow> ''['' @ join '', '' (map dumps_str xs) @ '']'')"








definition cons_fst :: "'a \<Rightarrow> ('a list \<times> 'b) option \<Rightarrow> ('a list \<times> 'b) option" where
  "cons_fst x r = (case r of None \<Rightarrow> None | Some (xs, rest) \<Rightarrow> Some (x # xs, rest))"








definition member_text :: "string \<times> val \<Rightarrow> string" where
  "member_text kv = dumps_str (fst kv) @ '': '' @ dumps_val (snd kv)"

subsection \<open>Writing the files\<close>





section \<open>The interactive login\<close>







section \<open>The command line\<close>










text \<open>The records that one pass parses, in the order of the feed items.\<close>

definition parsed_tweets :: "urlparse_fn \<Rightarrow> art list \<Rightarrow> tweet list" where
  "parsed_tweets up as =
     concat (map (\<lambda>a. case parse_tweet up a of Inl e \<Rightarrow> [] | Inr t \<Rightarrow> [t]) as)"

text \<open>
  The invariant of the scroll loop: the keys of the appended records are pairwise
  different, and \<open>seen_ids\<close> holds exactly these keys.
\<close>

definition loop_inv :: "loop_state \<Rightarrow> bool" where
  "loop_inv st =
     (distinct (map tid (bookmarks st)) \<and> seen_ids st = tid ` set (bookmarks st))"

text \<open>
  The feed as the collector sees it.  \<open>pass_keys j\<close> are the keys of the records parsed at
  pass \<open>j\<close>, \<open>keys_upto j\<close> those of the passes 1 to \<open>j\<close>.  A pass is stale when it shows
  no key that an earlier pass has not shown, and \<open>stale_run j\<close> counts the stale passes
  in a row that end at pass \<open>j\<close>.
\<close>

definition pass_keys :: "urlparse_fn \<Rightarrow> page \<Rightarrow> nat \<Rightarrow> string set" where
  "pass_keys up pg j =
     (case query_tweets pg j of Inl e \<Rightarrow> {} | Inr arts \<Rightarrow> tid ` set (parsed_tweets up arts))"

definition keys_upto :: "urlparse_fn \<Rightarrow> page \<Rightarrow> nat \<Rightarrow> string set" where
  "keys_upto up pg j = (\<Union>i\<in>{1..j}. pass_keys up pg i)"

definition stale_pass :: "urlparse_fn \<Rightarrow> page \<Rightarrow> nat \<Rightarrow> bool" where
  "stale_pass up pg j = (pass_keys up pg j \<subseteq> keys_upto up pg (j - 1))"

fun stale_run :: "urlparse_fn \<Rightarrow> page \<Rightarrow> nat \<Rightarrow> nat" where
  "stale_run up pg 0 = 0"
| "stale_run up pg (Suc j) = (if stale_pass up pg (Suc j) then Suc (stale_run up pg j) else 0)"

text \<open>
  The page lets the collector reach the scroll loop; pass \<open>j\<close> can be read (no Ctrl+C
  seen before it, the query answers); the scroll after pass \<open>j\<close> works.
\<close>

definition reaches_loop :: "page \<Rightarrow> bool" where
  "reaches_loop pg =
     (goto_bookmarks_raises pg = None \<and> wait_for_tweet pg = None \<and>
      \<not> is_login_page (case location_href pg of Inl e \<Rightarrow> page_url pg | Inr u \<Rightarrow> u))"

definition pass_readable :: "page \<Rightarrow> nat \<Rightarrow> bool" where
  "pass_readable pg j =
     (\<not> sigint_before pg j \<and> (case query_tweets pg j of Inl e \<Rightarrow> False | Inr arts \<Rightarrow> True))"

definition scroll_ok :: "page \<Rightarrow> nat \<Rightarrow> bool" where
  "scroll_ok pg j = (scroll_raises pg j = None)"

text \<open>Pass \<open>p\<close> was processed in the run with trace \<open>tr\<close>.\<close>

definition processed :: "collect_trace \<Rightarrow> nat \<Rightarrow> bool" where
  "processed tr p =
     (1 \<le> p \<and> (p < last_pass tr \<or> (p = last_pass tr \<and> exit_kind tr \<noteq> Cancelled)))"

text \<open>
  The loop is about to enter pass \<open>j + 1\<close> and has processed the passes 1 to \<open>j\<close>: it has
  seen their keys, and its counter is the number of stale passes in a row.
\<close>

definition at_pass :: "urlparse_fn \<Rightarrow> page \<Rightarrow> nat \<Rightarrow> loop_state \<Rightarrow> bool" where
  "at_pass up pg j st =
     (seen_ids st = keys_upto up pg j \<and> no_new_count st = stale_run up pg j)"

text \<open>The records that \<open>_parse_tweet\<close> makes of the items the page shows in some pass.\<close>

definition feed_records :: "urlparse_fn \<Rightarrow> page \<Rightarrow> tweet set" where
  "feed_records up pg =
     {r. \<exists>p arts a. query_tweets pg p = Inr arts \<and> a \<in> set arts \<and> parse_tweet up a = Inr r}"

text \<open>
  What the anchor loop asks of a link before it adds it to \<open>raw_urls\<close>: it is no article
  link, and it contains \<open>t.co\<close> or its netloc is neither \<open>x.com\<close> nor \<open>twitter.com\<close>.
  \<open>first_article\<close> is the first link of a list that is an article link, or the empty
  string.
\<close>

definition anchor_ok :: "urlparse_fn \<Rightarrow> string \<Rightarrow> bool" where
  "anchor_ok up u =
     (is_article_url up u = Inr False \<and>
      (str_in ''t.co'' u \<or>
       (\<exists>p. up u = Inr p \<and> lower (netloc p) \<notin> {''x.com'', ''twitter.com''})))"

definition first_article :: "urlparse_fn \<Rightarrow> string list \<Rightarrow> string" where
  "first_article up hrefs =
     (case find (\<lambda>h. is_article_url up h = Inr True) hrefs of None \<Rightarrow> [] | Some h \<Rightarrow> h)"

section \<open>Example inputs\<close>

text \<open>
  A feed item with a permalink and a text only, the record the parser makes of it, and a
  page on which every call succeeds and that shows the items \<open>feed i\<close> at pass \<open>i\<close>.
\<close>

definition plain_art :: "string \<Rightarrow> string \<Rightarrow> art" where
  "plain_art url txt =
     \<lparr>art_error = None, handle_el = None, name_el = None, text_el = Some txt,
      time_el = Some \<lparr>datetime = Some [], closest_a_href = url\<rparr>,
      anchors = [], photo_imgs = []\<rparr>"

definition plain_tweet :: "string \<Rightarrow> string \<Rightarrow> tweet" where
  "plain_tweet url txt =
     \<lparr>timestamp = Some [], author_name = [], author_handle = [], tweet_text = txt,
      tweet_url = url, article_url = [], article_text = [], image_urls = [], urls_raw = []\<rparr>"

definition empty_tab :: aux_page where
  "empty_tab = \<lparr>new_page_raises = None, goto_raises = None, query_article_body = Inr None,
               query_article = Inr None, close_raises = None\<rparr>"

definition feed_page :: "(nat \<Rightarrow> art list) \<Rightarrow> page" where
  "feed_page feed =
     \<lparr>goto_bookmarks_raises = None, location_href = Inr ''https://x.com/i/bookmarks'',
      page_url = ''https://x.com/i/bookmarks'', wait_for_tweet = None,
      query_tweets = (\<lambda>i. Inr (feed i)), scroll_raises = (\<lambda>i. None),
      sigint_before = (\<lambda>i. False), sigint_late = False,
      article_tab = (\<lambda>n url. empty_tab)\<rparr>"

text \<open>The default of \<open>--scroll-delay\<close>.\<close>

definition two_seconds :: delay where
  "two_seconds = Nanoseconds 2000000000"

text \<open>Two passes that overlap: the second shows the items of the first again, and one more.\<close>

definition overlap_feed :: "nat \<Rightarrow> art list" where
  "overlap_feed i =
     (if i = 1 then [plain_art ''u1'' ''one'', plain_art ''u2'' ''two'']
      else [plain_art ''u2'' ''two'', plain_art ''u1'' ''one'', plain_art ''u3'' ''three''])"

definition overlap_result :: "tweet list" where
  "overlap_result =
     [plain_tweet ''u1'' ''one'', plain_tweet ''u2'' ''two'', plain_tweet ''u3'' ''three'']"

text \<open>A pass with two items that have neither a permalink nor a text.\<close>

definition blank_art :: art where
  "blank_art = plain_art [] []"

definition blank_tweet :: tweet where
  "blank_tweet = plain_tweet [] []"

definition blank_feed :: "nat \<Rightarrow> art list" where
  "blank_feed i = [blank_art, blank_art]"

definition blank_trace :: collect_trace where
  "blank_trace =
     \<lparr>exit_kind = RangeDone, last_pass = 1, appended = [blank_tweet],
      article_writes = [], article_tabs = [], returned = [blank_tweet]\<rparr>"

text \<open>A page with one item that links to an article and one that does not.\<close>

definition article_art :: art where
  "article_art =
     \<lparr>art_error = None, handle_el = None, name_el = None, text_el = Some ''read this'',
      time_el = Some \<lparr>datetime = Some [], closest_a_href = ''u1''\<rparr>,
      anchors = [Some ''https://x.com/i/articles/9''], photo_imgs = []\<rparr>"

definition article_page :: page where
  "article_page =
     (feed_page (\<lambda>i. [article_art, plain_art ''u2'' ''two'']))
       \<lparr>article_tab := (\<lambda>n url. empty_tab\<lparr>query_article_body := Inr (Some (Inr '' Body ''))\<rparr>)\<rparr>"

definition article_trace :: collect_trace where
  "article_trace =
     \<lparr>exit_kind = RangeDone, last_pass = 1,
      appended = [(plain_tweet ''u1'' ''read this'')\<lparr>article_url := ''https://x.com/i/articles/9''\<rparr>,
                  plain_tweet ''u2'' ''two''],
      article_writes = [0], article_tabs = [Closed],
      returned = [(plain_tweet ''u1'' ''read this'')
                    \<lparr>article_url := ''https://x.com/i/articles/9'', article_text := ''Body''\<rparr>,
                  plain_tweet ''u2'' ''two'']\<rparr>"

text \<open>
  A network on which one shortened link resolves and every other lookup fails; a record
  with two links; a tab on which the navigation times out; a page that shows the login
  wall; a login that is detected at the first poll; a run of \<open>main\<close> with a stored
  session that finds no bookmarks, before and after the interactive login, while an older
  output file exists.
\<close>

definition flaky_head :: head_fn where
  "flaky_head u = (if u = ''https://t.co/b'' then Inr ''https://example.com/page''
                   else Inl RequestException)"

definition linked_tweet :: tweet where
  "linked_tweet = (plain_tweet ''u1'' ''links'')\<lparr>urls_raw := [''https://t.co/a'', ''https://t.co/b'']\<rparr>"

definition timeout_tab :: aux_page where
  "timeout_tab = empty_tab\<lparr>goto_raises := Some PlaywrightTimeout\<rparr>"






text \<open>An item whose text spells out the article link that its anchor points to.\<close>

definition own_link_art :: art where
  "own_link_art =
     \<lparr>art_error = None, handle_el = None, name_el = None,
      text_el = Some ''see https://x.com/i/articles/9'',
      time_el = Some \<lparr>datetime = Some [], closest_a_href = ''u1''\<rparr>,
      anchors = [Some ''https://x.com/i/articles/9''], photo_imgs = []\<rparr>"

definition own_link_tweet :: tweet where
  "own_link_tweet =
     (plain_tweet ''u1'' ''see https://x.com/i/articles/9'')
       \<lparr>article_url := ''https://x.com/i/articles/9'',
        urls_raw := [''https://x.com/i/articles/9'']\<rparr>"

text \<open>
  An item without text whose anchors stay on the site: a search link on \<open>x.com\<close> that
  contains \<open>t.co\<close>, and a link to \<open>www.x.com\<close>.
\<close>

definition own_anchor_art :: art where
  "own_anchor_art =
     \<lparr>art_error = None, handle_el = None, name_el = None, text_el = None,
      time_el = Some \<lparr>datetime = Some [], closest_a_href = ''u1''\<rparr>,
      anchors = [Some ''https://x.com/search?q=t.co'', Some ''https://www.x.com/home''],
      photo_imgs = []\<rparr>"

definition own_anchor_tweet :: tweet where
  "own_anchor_tweet =
     (plain_tweet ''u1'' [])
       \<lparr>urls_raw := [''https://www.x.com/home'', ''https://x.com/search?q=t.co'']\<rparr>"


section \<open>Properties of the collector\<close>

declare scroll_loop.simps [simp del]

lemma parsed_tweets_simps:
  "parsed_tweets up [] = []"
  "parsed_tweets up (a # as) =
     (case parse_tweet up a of Inl e \<Rightarrow> [] | Inr t \<Rightarrow> [t]) @ parsed_tweets up as"
  by (simp_all add: parsed_tweets_def)

text \<open>
  One pass appends new records at the end: their keys are pairwise different and were
  not seen before, and afterwards every key the pass parsed is in \<open>seen_ids\<close>.
\<close>

lemma process_articles_appends:
  "process_articles up as (bs, seen, n) = (bs', seen', n') \<Longrightarrow>
   \<exists>new. bs' = bs @ new \<and> seen' = seen \<union> tid ` set new \<and> n' = n + length new \<and>
         distinct (map tid new) \<and> tid ` set new \<inter> seen = {} \<and>
         set new \<subseteq> set (parsed_tweets up as) \<and>
         tid ` set (parsed_tweets up as) \<subseteq> seen'"
proof (induction as arbitrary: bs seen n)
  case Nil
  then show ?case by (simp add: parsed_tweets_simps)
next
  case (Cons a as)
  show ?case
  proof (cases "parse_tweet up a")
    case (Inl e)
    with Cons.prems have "process_articles up as (bs, seen, n) = (bs', seen', n')" by simp
    from Cons.IH [OF this] Inl show ?thesis by (simp add: parsed_tweets_simps)
  next
    case (Inr t)
    show ?thesis
    proof (cases "tid t \<in> seen")
      case True
      with Inr Cons.prems have "process_articles up as (bs, seen, n) = (bs', seen', n')" by simp
      from Cons.IH [OF this] obtain new where new:
        "bs' = bs @ new" "seen' = seen \<union> tid ` set new" "n' = n + length new"
        "distinct (map tid new)" "tid ` set new \<inter> seen = {}"
        "set new \<subseteq> set (parsed_tweets up as)" "tid ` set (parsed_tweets up as) \<subseteq> seen'"
        by blast
      with True Inr show ?thesis
        by (intro exI [of _ new]) (auto simp: parsed_tweets_simps)
    next
      case False
      with Inr Cons.prems
      have "process_articles up as (bs @ [t], insert (tid t) seen, Suc n) = (bs', seen', n')"
        by simp
      from Cons.IH [OF this] obtain new where new:
        "bs' = (bs @ [t]) @ new" "seen' = insert (tid t) seen \<union> tid ` set new"
        "n' = Suc n + length new"
        "distinct (map tid new)" "tid ` set new \<inter> insert (tid t) seen = {}"
        "set new \<subseteq> set (parsed_tweets up as)" "tid ` set (parsed_tweets up as) \<subseteq> seen'"
        by blast
      with False Inr show ?thesis
        by (intro exI [of _ "t # new"]) (auto simp: parsed_tweets_simps)
    qed
  qed
qed

lemma process_articles_inv:
  assumes "process_articles up as (bs, seen, n) = (bs', seen', n')"
    and "distinct (map tid bs)" and "seen = tid ` set bs"
  shows "distinct (map tid bs') \<and> seen' = tid ` set bs'"
proof -
  from process_articles_appends [OF assms(1)] obtain new where
    "bs' = bs @ new" "seen' = seen \<union> tid ` set new" "distinct (map tid new)"
    "tid ` set new \<inter> seen = {}"
    by blast
  with assms(2,3) show ?thesis by auto
qed

lemma scroll_pass_Continue:
  assumes "scroll_pass up pg sd i st = Continue st'"
  shows "\<exists>arts bs seen n.
           \<not> sigint_before pg i \<and> query_tweets pg i = Inr arts \<and> scroll_raises pg i = None \<and>
           time_sleep sd = None \<and>
           process_articles up arts (bookmarks st, seen_ids st, 0) = (bs, seen, n) \<and>
           st' = \<lparr>bookmarks = bs, seen_ids = seen,
                  no_new_count = (if n \<noteq> 0 then 0 else no_new_count st + 1)\<rparr> \<and>
           (n = 0 \<longrightarrow> no_new_count st + 1 < 5)"
proof -
  from assms have ns: "\<not> sigint_before pg i"
    by (auto simp: scroll_pass_def split: if_splits)
  with assms obtain arts where q: "query_tweets pg i = Inr arts"
    by (cases "query_tweets pg i") (auto simp: scroll_pass_def)
  obtain bs seen n where p: "process_articles up arts (bookmarks st, seen_ids st, 0) = (bs, seen, n)"
    by (cases "process_articles up arts (bookmarks st, seen_ids st, 0)") auto
  from assms ns q p have sc: "scroll_raises pg i = None"
    by (cases "scroll_raises pg i") (auto simp: scroll_pass_def split: if_splits)
  from assms ns q p sc have sl: "time_sleep sd = None"
    by (cases "time_sleep sd") (auto simp: scroll_pass_def split: if_splits)
  from assms ns q p sc sl have
    "st' = \<lparr>bookmarks = bs, seen_ids = seen,
            no_new_count = (if n \<noteq> 0 then 0 else no_new_count st + 1)\<rparr>"
    "n = 0 \<longrightarrow> no_new_count st + 1 < 5"
    by (auto simp: scroll_pass_def split: if_splits)
  with ns q p sc sl show ?thesis by blast
qed

lemma scroll_pass_Break:
  assumes "scroll_pass up pg sd i st = Break ex st'"
  shows "(ex = Cancelled \<and> sigint_before pg i \<and> st' = st) \<or>
         (ex = Exhausted \<and> \<not> sigint_before pg i \<and>
          (\<exists>arts bs seen. query_tweets pg i = Inr arts \<and>
             process_articles up arts (bookmarks st, seen_ids st, 0) = (bs, seen, 0) \<and>
             5 \<le> no_new_count st + 1 \<and>
             st' = \<lparr>bookmarks = bs, seen_ids = seen, no_new_count = no_new_count st + 1\<rparr>))"
proof (cases "sigint_before pg i")
  case True
  with assms show ?thesis by (simp add: scroll_pass_def)
next
  case False
  with assms obtain arts where q: "query_tweets pg i = Inr arts"
    by (cases "query_tweets pg i") (auto simp: scroll_pass_def)
  obtain bs seen n where p: "process_articles up arts (bookmarks st, seen_ids st, 0) = (bs, seen, n)"
    by (cases "process_articles up arts (bookmarks st, seen_ids st, 0)") auto
  from assms False q p have
    "ex = Exhausted \<and> n = 0 \<and> 5 \<le> no_new_count st + 1 \<and>
     st' = \<lparr>bookmarks = bs, seen_ids = seen, no_new_count = no_new_count st + 1\<rparr>"
    by (cases "scroll_raises pg i"; cases "time_sleep sd")
      (auto simp: scroll_pass_def split: if_splits)
  with False q p show ?thesis by blast
qed

lemma scroll_pass_inv:
  assumes "loop_inv st"
  shows "scroll_pass up pg sd i st = Break ex st' \<Longrightarrow> loop_inv st'"
    and "scroll_pass up pg sd i st = Continue st' \<Longrightarrow> loop_inv st'"
proof -
  have *: "loop_inv \<lparr>bookmarks = bs, seen_ids = seen, no_new_count = c\<rparr>"
    if "process_articles up arts (bookmarks st, seen_ids st, 0) = (bs, seen, n)"
    for arts bs seen n c
    using process_articles_inv [OF that] assms by (simp add: loop_inv_def)
  show "loop_inv st'" if "scroll_pass up pg sd i st = Break ex st'"
    using scroll_pass_Break [OF that] assms * by blast
  show "loop_inv st'" if "scroll_pass up pg sd i st = Continue st'"
    using scroll_pass_Continue [OF that] * by blast
qed

lemma scroll_loop_unfold:
  "scroll_loop up pg m sd i st =
     (if m < int i then Inr (RangeDone, i - 1, st)
      else (case scroll_pass up pg sd i st of
              Raise e \<Rightarrow> Inl e
            | Break ex st' \<Rightarrow> Inr (ex, i, st')
            | Continue st' \<Rightarrow> scroll_loop up pg m sd (Suc i) st'))"
  by (rule scroll_loop.simps)

lemma scroll_loop_inv:
  "scroll_loop up pg m sd i st = Inr (ex, j, st') \<Longrightarrow> loop_inv st \<Longrightarrow> loop_inv st'"
proof (induction up pg m sd i st rule: scroll_loop.induct)
  case (1 up pg m sd i st)
  show ?case
  proof (cases "m < int i")
    case True
    with "1.prems" show ?thesis by (simp add: scroll_loop_unfold [of up pg m sd i])
  next
    case False
    show ?thesis
    proof (cases "scroll_pass up pg sd i st")
      case (Raise e)
      with False "1.prems"(1) show ?thesis by (simp add: scroll_loop_unfold [of up pg m sd i])
    next
      case (Break ex' st'')
      with False "1.prems"(1) have "st'' = st'" by (simp add: scroll_loop_unfold [of up pg m sd i])
      with scroll_pass_inv(1) [OF "1.prems"(2) Break] show ?thesis by simp
    next
      case (Continue st'')
      with False "1.prems"(1) have "scroll_loop up pg m sd (Suc i) st'' = Inr (ex, j, st')"
        by (simp add: scroll_loop_unfold [of up pg m sd i])
      from "1.IH" [OF False Continue this] scroll_pass_inv(2) [OF "1.prems"(2) Continue]
      show ?thesis by simp
    qed
  qed
qed

text \<open>The article phase keeps the length of the store and every field but \<open>article_text\<close>.\<close>

lemma fetch_loop_length: "length (store (fetch_loop pg is fs)) = length (store fs)"
  by (induction "is" arbitrary: fs) (auto split: prod.splits)

lemma fetch_loop_frame:
  "i < length (store fs) \<Longrightarrow>
   store (fetch_loop pg is fs) ! i =
     (store fs ! i)\<lparr>article_text := article_text (store (fetch_loop pg is fs) ! i)\<rparr>"
proof (induction "is" arbitrary: fs)
  case Nil
  show ?case by simp
next
  case (Cons b rest)
  obtain body status where
    f: "fetch_article_content (article_tab pg (calls fs)) (article_url (store fs ! b)) = (body, status)"
    by (cases "fetch_article_content (article_tab pg (calls fs)) (article_url (store fs ! b))") auto
  define fs' where
    "fs' = \<lparr>store = (store fs)[b := (store fs ! b)\<lparr>article_text := body\<rparr>],
            writes = writes fs @ [b], tabs = tabs fs @ [status], calls = Suc (calls fs)\<rparr>"
  have eq: "fetch_loop pg (b # rest) fs = fetch_loop pg rest fs'"
    by (simp add: f fs'_def)
  have len: "length (store fs') = length (store fs)" by (simp add: fs'_def)
  have one: "store fs' ! i = (store fs ! i)\<lparr>article_text := article_text (store fs' ! i)\<rparr>"
    using Cons.prems by (cases "i = b") (simp_all add: fs'_def)
  have "store (fetch_loop pg rest fs') ! i =
     (store fs' ! i)\<lparr>article_text := article_text (store (fetch_loop pg rest fs') ! i)\<rparr>"
    using Cons.IH [of fs'] Cons.prems len by simp
  also have "\<dots> =
     (store fs ! i)\<lparr>article_text := article_text (store (fetch_loop pg rest fs') ! i)\<rparr>"
    by (subst one) simp
  finally show ?case by (simp only: eq)
qed

lemma frame_tid: "r' = r\<lparr>article_text := t\<rparr> \<Longrightarrow> tid r' = tid r"
  by (simp add: tid_def)

lemma fetch_loop_map_tid: "map tid (store (fetch_loop pg is fs)) = map tid (store fs)"
proof (rule nth_equalityI)
  show "length (map tid (store (fetch_loop pg is fs))) = length (map tid (store fs))"
    by (simp add: fetch_loop_length)
  fix i assume "i < length (map tid (store (fetch_loop pg is fs)))"
  then have i: "i < length (store fs)" by (simp add: fetch_loop_length)
  from frame_tid [OF fetch_loop_frame [OF i]] i
  show "map tid (store (fetch_loop pg is fs)) ! i = map tid (store fs) ! i"
    by (simp add: fetch_loop_length)
qed

text \<open>What a trace says about the loop and the article phase that made it.\<close>

lemma fetch_articles_on:
  "\<not> na \<Longrightarrow> \<not> stop \<Longrightarrow>
   fetch_articles pg na stop bs =
     fetch_loop pg (article_bookmarks bs) \<lparr>store = bs, writes = [], tabs = [], calls = 0\<rparr>"
  by (simp add: fetch_articles_def)

lemma fetch_articles_off:
  "na \<or> stop \<Longrightarrow>
   fetch_articles pg na stop bs = \<lparr>store = bs, writes = [], tabs = [], calls = 0\<rparr>"
  by (auto simp: fetch_articles_def)

lemma fetch_articles_length: "length (store (fetch_articles pg na stop bs)) = length bs"
  by (simp add: fetch_articles_def Let_def fetch_loop_length)

lemma fetch_articles_map_tid: "map tid (store (fetch_articles pg na stop bs)) = map tid bs"
  by (simp add: fetch_articles_def Let_def fetch_loop_map_tid)

lemma collect_run_loop:
  assumes "collect_run up pg m sd na = Inr (Some tr)"
  obtains st where
    "scroll_loop up pg m sd 1 init_state = Inr (exit_kind tr, last_pass tr, st)"
    and "appended tr = bookmarks st"
    and "returned tr =
           store (fetch_articles pg na (exit_kind tr = Cancelled \<or> sigint_late pg) (bookmarks st))"
    and "article_writes tr =
           writes (fetch_articles pg na (exit_kind tr = Cancelled \<or> sigint_late pg) (bookmarks st))"
proof -
  from assms have pre: "goto_bookmarks_raises pg = None" "wait_for_tweet pg = None"
    "\<not> is_login_page (case location_href pg of Inl e \<Rightarrow> page_url pg | Inr u \<Rightarrow> u)"
    by (auto simp: collect_run_def Let_def split: option.splits if_splits)
  with assms obtain ex idx st where
    loop: "scroll_loop up pg m sd 1 init_state = Inr (ex, idx, st)"
    by (cases "scroll_loop up pg m sd 1 init_state") (auto simp: collect_run_def Let_def)
  with assms pre have
    "tr = \<lparr>exit_kind = ex, last_pass = idx, appended = bookmarks st,
           article_writes = writes (fetch_articles pg na (ex = Cancelled \<or> sigint_late pg) (bookmarks st)),
           article_tabs = tabs (fetch_articles pg na (ex = Cancelled \<or> sigint_late pg) (bookmarks st)),
           returned = store (fetch_articles pg na (ex = Cancelled \<or> sigint_late pg) (bookmarks st))\<rparr>"
    by (simp add: collect_run_def Let_def)
  with loop show ?thesis
    by (intro that [of st]) simp_all
qed

lemma collect_run_distinct:
  assumes "collect_run up pg m sd na = Inr (Some tr)"
  shows "distinct (map tid (returned tr))"
proof -
  from assms obtain st where
    loop: "scroll_loop up pg m sd 1 init_state = Inr (exit_kind tr, last_pass tr, st)"
    and ret: "returned tr =
           store (fetch_articles pg na (exit_kind tr = Cancelled \<or> sigint_late pg) (bookmarks st))"
    by (rule collect_run_loop)
  from scroll_loop_inv [OF loop] have "distinct (map tid (bookmarks st))"
    by (simp add: loop_inv_def init_state_def)
  with ret show ?thesis
    by (simp add: fetch_articles_map_tid)
qed

lemma collect_bookmarks_distinct:
  "collect_bookmarks up pg m sd na = Inr res \<Longrightarrow> distinct (map tid res)"
  by (auto simp: collect_bookmarks_def collect_run_distinct split: sum.splits option.splits)

text \<open>
  C1.  In the list that \<open>collect_bookmarks\<close> returns, whatever items the passes show, two
  records at different positions never have the same non-empty \<open>tweet_url\<close>.
\<close>

theorem collect_bookmarks_unique_urls:
  assumes "collect_bookmarks up pg max_scrolls scroll_delay no_articles = Inr res"
    and "i < length res" and "j < length res" and "i \<noteq> j"
    and "tweet_url (res ! i) \<noteq> []"
  shows "tweet_url (res ! i) \<noteq> tweet_url (res ! j)"
proof -
  from assms(1) have "distinct (map tid res)"
    by (rule collect_bookmarks_distinct)
  with assms(2-4) have "tid (res ! i) \<noteq> tid (res ! j)"
    by (simp add: distinct_conv_nth)
  with assms(5) show ?thesis
    by (auto simp: tid_def)
qed

theorem collect_bookmarks_unique_urls_witness:
  "collect_bookmarks urlparse (feed_page overlap_feed) 3 two_seconds True = Inr overlap_result
   \<and> 0 < length overlap_result \<and> 1 < length overlap_result \<and> (0::nat) \<noteq> 1
   \<and> tweet_url (overlap_result ! 0) \<noteq> []
   \<and> tweet_url (overlap_result ! 0) \<noteq> tweet_url (overlap_result ! 1)"
proof -
  have run: "collect_bookmarks urlparse (feed_page overlap_feed) 3 two_seconds True = Inr overlap_result"
    by code_simp
  have len: "0 < length overlap_result" "1 < length overlap_result"
    by (simp_all add: overlap_result_def)
  have url: "tweet_url (overlap_result ! 0) \<noteq> []"
    by (simp add: overlap_result_def plain_tweet_def)
  from collect_bookmarks_unique_urls [OF run len _ url] run len url
  show ?thesis by simp
qed

lemma process_articles_keys:
  assumes "process_articles up as (bs, seen, 0) = (bs', seen', n')"
  shows "seen' = seen \<union> tid ` set (parsed_tweets up as)"
    and "n' = 0 \<longleftrightarrow> tid ` set (parsed_tweets up as) \<subseteq> seen"
    and "n' = 0 \<Longrightarrow> bs' = bs"
proof -
  from process_articles_appends [OF assms] obtain new where new:
    "bs' = bs @ new" "seen' = seen \<union> tid ` set new" "n' = 0 + length new"
    "tid ` set new \<inter> seen = {}"
    "set new \<subseteq> set (parsed_tweets up as)" "tid ` set (parsed_tweets up as) \<subseteq> seen'"
    by blast
  from new(2,5,6) show "seen' = seen \<union> tid ` set (parsed_tweets up as)" by blast
  show "n' = 0 \<longleftrightarrow> tid ` set (parsed_tweets up as) \<subseteq> seen"
  proof
    assume "n' = 0"
    with new(3) have "new = []" by simp
    with new(2,6) show "tid ` set (parsed_tweets up as) \<subseteq> seen" by simp
  next
    assume sub: "tid ` set (parsed_tweets up as) \<subseteq> seen"
    have "new = []"
    proof (cases new)
      case (Cons t ts)
      with new(5) sub have "tid t \<in> seen" by auto
      with new(4) Cons show ?thesis by auto
    qed simp
    with new(3) show "n' = 0" by simp
  qed
  show "bs' = bs" if "n' = 0"
    using that new(1,3) by simp
qed

lemma keys_upto_Suc: "keys_upto up pg (Suc j) = keys_upto up pg j \<union> pass_keys up pg (Suc j)"
  by (auto simp: keys_upto_def atLeastAtMostSuc_conv)

lemma scroll_pass_at:
  assumes at: "at_pass up pg j st" and rd: "pass_readable pg (Suc j)"
  shows "stale_run up pg (Suc j) < 5 \<Longrightarrow> scroll_ok pg (Suc j) \<Longrightarrow> time_sleep sd = None \<Longrightarrow>
           \<exists>st'. scroll_pass up pg sd (Suc j) st = Continue st' \<and> at_pass up pg (Suc j) st'"
    and "5 \<le> stale_run up pg (Suc j) \<Longrightarrow>
           \<exists>st'. scroll_pass up pg sd (Suc j) st = Break Exhausted st' \<and> bookmarks st' = bookmarks st"
proof -
  from rd obtain arts where ns: "\<not> sigint_before pg (Suc j)" and q: "query_tweets pg (Suc j) = Inr arts"
    by (cases "query_tweets pg (Suc j)") (auto simp: pass_readable_def)
  obtain bs seen n where p: "process_articles up arts (bookmarks st, seen_ids st, 0) = (bs, seen, n)"
    by (cases "process_articles up arts (bookmarks st, seen_ids st, 0)") auto
  from q have pk: "pass_keys up pg (Suc j) = tid ` set (parsed_tweets up arts)"
    by (simp add: pass_keys_def)
  from process_articles_keys(1) [OF p] at pk have seen: "seen = keys_upto up pg (Suc j)"
    by (simp add: at_pass_def keys_upto_Suc)
  from process_articles_keys(2) [OF p] at pk have n0: "n = 0 \<longleftrightarrow> stale_pass up pg (Suc j)"
    by (simp add: at_pass_def stale_pass_def)
  from at have c: "no_new_count st = stale_run up pg j" by (simp add: at_pass_def)
  show "\<exists>st'. scroll_pass up pg sd (Suc j) st = Continue st' \<and> at_pass up pg (Suc j) st'"
    if lt: "stale_run up pg (Suc j) < 5" and sc: "scroll_ok pg (Suc j)"
      and sl: "time_sleep sd = None"
  proof (cases "n = 0")
    case True
    with n0 lt c have "no_new_count st + 1 < 5" "stale_run up pg (Suc j) = no_new_count st + 1" by auto
    with True ns q p sc sl seen show ?thesis
      by (simp add: scroll_pass_def scroll_ok_def at_pass_def)
  next
    case False
    with n0 have "stale_run up pg (Suc j) = 0" by simp
    with False ns q p sc sl seen show ?thesis
      by (simp add: scroll_pass_def scroll_ok_def at_pass_def)
  qed
  show "\<exists>st'. scroll_pass up pg sd (Suc j) st = Break Exhausted st' \<and> bookmarks st' = bookmarks st"
    if ge: "5 \<le> stale_run up pg (Suc j)"
  proof -
    from ge have st: "stale_pass up pg (Suc j)" by (auto split: if_splits)
    with n0 have n: "n = 0" by simp
    from st ge c have "5 \<le> no_new_count st + 1" by simp
    moreover from process_articles_keys(3) [OF p n] have "bs = bookmarks st" .
    ultimately show ?thesis using n ns q p
      by (simp add: scroll_pass_def)
  qed
qed

lemma scroll_loop_Break:
  "\<not> m < int i \<Longrightarrow> scroll_pass up pg sd i st = Break ex st' \<Longrightarrow>
   scroll_loop up pg m sd i st = Inr (ex, i, st')"
  by (simp add: scroll_loop_unfold [of up pg m sd i])

lemma scroll_loop_Raise:
  "\<not> m < int i \<Longrightarrow> scroll_pass up pg sd i st = Raise e \<Longrightarrow>
   scroll_loop up pg m sd i st = Inl e"
  by (simp add: scroll_loop_unfold [of up pg m sd i])

lemma scroll_loop_Continue:
  "\<not> m < int i \<Longrightarrow> scroll_pass up pg sd i st = Continue st' \<Longrightarrow>
   scroll_loop up pg m sd i st = scroll_loop up pg m sd (Suc i) st'"
  by (simp add: scroll_loop_unfold [of up pg m sd i])

lemma scroll_loop_prefix:
  assumes "\<forall>p\<in>{1..j}. pass_readable pg p \<and> scroll_ok pg p \<and> stale_run up pg p < 5"
    and "int j \<le> m" and "time_sleep sd = None"
  shows "\<exists>st. scroll_loop up pg m sd 1 init_state = scroll_loop up pg m sd (Suc j) st \<and>
              at_pass up pg j st"
  using assms
proof (induction j)
  case 0
  have "at_pass up pg 0 init_state"
    by (simp add: at_pass_def init_state_def keys_upto_def)
  then show ?case by auto
next
  case (Suc j)
  then obtain st where st: "scroll_loop up pg m sd 1 init_state = scroll_loop up pg m sd (Suc j) st"
    "at_pass up pg j st"
    by auto
  have "Suc j \<in> {1..Suc j}" by simp
  with Suc.prems(1) have "pass_readable pg (Suc j)" "scroll_ok pg (Suc j)" "stale_run up pg (Suc j) < 5"
    by blast+
  from scroll_pass_at(1) [OF st(2) this(1,3,2) Suc.prems(3)] obtain st' where
    st': "scroll_pass up pg sd (Suc j) st = Continue st'" "at_pass up pg (Suc j) st'"
    by blast
  from Suc.prems(2) have "\<not> m < int (Suc j)" by simp
  from scroll_loop_Continue [OF this st'(1)]
  have "scroll_loop up pg m sd (Suc j) st = scroll_loop up pg m sd (Suc (Suc j)) st'" .
  with st(1) st'(2) show ?case by auto
qed

text \<open>A \<open>scroll_delay\<close> that \<open>time.sleep\<close> rejects ends the function after the first scroll.\<close>

lemma rejected_delay_raises:
  assumes "time_sleep sd = Some e" and "pass_readable pg 1" and "scroll_ok pg 1"
    and "1 \<le> m"
  shows "scroll_loop up pg m sd 1 init_state = Inl e"
proof -
  from assms(2) obtain arts where ns: "\<not> sigint_before pg 1" and q: "query_tweets pg 1 = Inr arts"
    by (cases "query_tweets pg 1") (auto simp: pass_readable_def)
  obtain bs seen n where
    p: "process_articles up arts (bookmarks init_state, seen_ids init_state, 0) = (bs, seen, n)"
    by (cases "process_articles up arts (bookmarks init_state, seen_ids init_state, 0)") auto
  from ns q p assms(1,3) have "scroll_pass up pg sd 1 init_state = Raise e"
    by (simp add: scroll_pass_def scroll_ok_def init_state_def)
  moreover from assms(4) have "\<not> m < int 1" by simp
  ultimately show ?thesis by (intro scroll_loop_Raise)
qed

lemma stale_run_le: "stale_run up pg j \<le> j"
  by (induction j) auto

lemma stale_run_tail:
  assumes "stale_run up pg k = 0" and "\<forall>j\<in>{k+1..k+d}. stale_pass up pg j"
  shows "stale_run up pg (k + d) = d"
  using assms by (induction d) auto

text \<open>
  C2.  Let the collector reach its loop, let the passes 1 to \<open>k + 5\<close> be readable, the
  scrolls between them work, and \<open>scroll_delay\<close> be a length that \<open>time.sleep\<close> accepts.  If
  the loop is still running at pass \<open>k\<close>, pass \<open>k\<close> is the last one that shows a new item (or
  \<open>k = 0\<close>: no pass does), and \<open>max_scrolls\<close> is at least \<open>k + 5\<close>, however large, then the
  loop is left by the stale-pass \<open>break\<close> at pass \<open>k + 5\<close>.
\<close>

theorem exhaustion_at_k_plus_5:
  assumes start: "reaches_loop pg"
    and readable: "\<forall>j\<in>{1..k+5}. pass_readable pg j"
    and scrolls: "\<forall>j\<in>{1..k+4}. scroll_ok pg j"
    and alive: "\<forall>j\<in>{1..k}. stale_run up pg j < 5"
    and last_new: "k = 0 \<or> \<not> stale_pass up pg k"
    and stale: "\<forall>j\<in>{k+1..k+5}. stale_pass up pg j"
    and large: "int k + 5 \<le> max_scrolls"
    and sleeps: "time_sleep scroll_delay = None"
  shows "\<exists>tr. collect_run up pg max_scrolls scroll_delay no_articles = Inr (Some tr) \<and>
              exit_kind tr = Exhausted \<and> last_pass tr = k + 5"
proof -
  from last_new have k0: "stale_run up pg k = 0" by (cases k) auto
  have tail: "stale_run up pg (k + d) = d" if "d \<le> 5" for d
    using stale_run_tail [OF k0, of d] stale that by auto
  have "\<forall>p\<in>{1..k+4}. pass_readable pg p \<and> scroll_ok pg p \<and> stale_run up pg p < 5"
  proof
    fix p assume p: "p \<in> {1..k+4}"
    have "stale_run up pg p < 5"
    proof (cases "p \<le> k")
      case True
      with p alive show ?thesis by auto
    next
      case False
      with p have "p = k + (p - k)" "p - k \<le> 4" by auto
      with tail [of "p - k"] show ?thesis by simp
    qed
    with p readable scrolls show "pass_readable pg p \<and> scroll_ok pg p \<and> stale_run up pg p < 5"
      by auto
  qed
  from scroll_loop_prefix [OF this _ sleeps, of max_scrolls] large obtain st where
    st: "scroll_loop up pg max_scrolls scroll_delay 1 init_state = scroll_loop up pg max_scrolls scroll_delay (Suc (k + 4)) st"
    "at_pass up pg (k + 4) st"
    by auto
  from readable have rd: "pass_readable pg (Suc (k + 4))" by simp
  have e: "Suc (k + 4) = k + 5" by simp
  have "5 \<le> stale_run up pg (Suc (k + 4))"
    unfolding e using tail [of 5] by simp
  from scroll_pass_at(2) [OF st(2) rd this] obtain st' where
    br: "scroll_pass up pg scroll_delay (Suc (k + 4)) st = Break Exhausted st'"
    by blast
  from large have "\<not> max_scrolls < int (Suc (k + 4))" by simp
  from scroll_loop_Break [OF this br] st(1) e
  have loop: "scroll_loop up pg max_scrolls scroll_delay 1 init_state = Inr (Exhausted, k + 5, st')"
    by simp
  from start loop show ?thesis
    by (simp add: collect_run_def reaches_loop_def Let_def)
qed


theorem exhaustion_at_k_plus_5_witness:
  "reaches_loop (feed_page overlap_feed)
   \<and> int 2 + 5 \<le> 100
   \<and> time_sleep two_seconds = None
   \<and> \<not> stale_pass urlparse (feed_page overlap_feed) 2
   \<and> stale_pass urlparse (feed_page overlap_feed) 3
   \<and> (\<exists>tr. collect_run urlparse (feed_page overlap_feed) 100 two_seconds True = Inr (Some tr)
            \<and> exit_kind tr = Exhausted \<and> last_pass tr = 2 + 5)"
proof -
  let ?P = "feed_page overlap_feed"
  have start: "reaches_loop ?P"
    by code_simp
  have readable: "\<forall>j\<in>{1..2+5}. pass_readable ?P j"
    by (simp add: pass_readable_def feed_page_def)
  have scrolls: "\<forall>j\<in>{1..2+4}. scroll_ok ?P j"
    by (simp add: scroll_ok_def feed_page_def)
  have alive: "\<forall>j\<in>{1..2}. stale_run urlparse ?P j < 5"
  proof
    fix j :: nat assume "j \<in> {1..2}"
    with stale_run_le [of urlparse ?P j] show "stale_run urlparse ?P j < 5" by simp
  qed
  have fresh: "\<not> stale_pass urlparse ?P 2"
    by code_simp
  then have last_new: "(2::nat) = 0 \<or> \<not> stale_pass urlparse ?P 2" ..
  have same: "pass_keys urlparse ?P j = pass_keys urlparse ?P 2" if "2 \<le> j" for j
    using that by (simp add: pass_keys_def feed_page_def overlap_feed_def)
  have stale: "\<forall>j\<in>{2+1..2+5}. stale_pass urlparse ?P j"
  proof
    fix j :: nat assume j: "j \<in> {2+1..2+5}"
    then have "2 \<in> {1..j - 1}" by auto
    then have "pass_keys urlparse ?P 2 \<subseteq> keys_upto urlparse ?P (j - 1)"
      unfolding keys_upto_def by blast
    with same [of j] j show "stale_pass urlparse ?P j"
      by (simp add: stale_pass_def)
  qed
  then have stale3: "stale_pass urlparse ?P 3" by simp
  have large: "int 2 + 5 \<le> 100" by simp
  have sleeps: "time_sleep two_seconds = None"
    by (simp add: time_sleep_def two_seconds_def)
  from exhaustion_at_k_plus_5 [OF start readable scrolls alive last_new stale large sleeps, of True]
    start large fresh stale3 sleeps
  show ?thesis by blast
qed

lemma set_parsed_tweets:
  "set (parsed_tweets up as) = {t. \<exists>a\<in>set as. parse_tweet up a = Inr t}"
  by (induction as) (auto simp: parsed_tweets_simps split: sum.splits)

text \<open>What one pass does to the lists, when it does not raise.\<close>

lemma scroll_pass_effect:
  assumes "scroll_pass up pg sd i st = Continue st' \<or> scroll_pass up pg sd i st = Break Exhausted st'"
  shows "\<exists>arts new. query_tweets pg i = Inr arts \<and> bookmarks st' = bookmarks st @ new \<and>
           set new \<subseteq> set (parsed_tweets up arts) \<and>
           seen_ids st' = seen_ids st \<union> pass_keys up pg i"
proof -
  from assms obtain arts bs seen n where
    q: "query_tweets pg i = Inr arts"
    and p: "process_articles up arts (bookmarks st, seen_ids st, 0) = (bs, seen, n)"
    and st': "bookmarks st' = bs" "seen_ids st' = seen"
    using scroll_pass_Continue [of up pg sd i st st'] scroll_pass_Break [of up pg sd i st Exhausted st']
    by auto
  from process_articles_appends [OF p] obtain new where
    "bs = bookmarks st @ new" "set new \<subseteq> set (parsed_tweets up arts)"
    by blast
  moreover from process_articles_keys(1) [OF p] q
  have "seen = seen_ids st \<union> pass_keys up pg i"
    by (simp add: pass_keys_def)
  ultimately show ?thesis using q st' by blast
qed

lemma scroll_pass_Cancelled:
  "scroll_pass up pg sd i st = Break Cancelled st' \<Longrightarrow> st' = st"
  using scroll_pass_Break [of up pg sd i st Cancelled st'] by auto

lemma scroll_pass_Break_kind:
  "scroll_pass up pg sd i st = Break ex st' \<Longrightarrow> ex = Cancelled \<or> ex = Exhausted"
  using scroll_pass_Break [of up pg sd i st ex st'] by auto

text \<open>The loop only appends, and what it appends was parsed from the feed.\<close>

lemma scroll_loop_appends:
  "scroll_loop up pg m sd i st = Inr (ex, j, st') \<Longrightarrow>
   \<exists>new. bookmarks st' = bookmarks st @ new \<and> set new \<subseteq> feed_records up pg"
proof (induction up pg m sd i st rule: scroll_loop.induct)
  case (1 up pg m sd i st)
  show ?case
  proof (cases "m < int i")
    case True
    with "1.prems" show ?thesis by (simp add: scroll_loop_unfold [of up pg m sd i])
  next
    case False
    have step: "\<exists>new. bookmarks s = bookmarks st @ new \<and> set new \<subseteq> feed_records up pg"
      if "scroll_pass up pg sd i st = Continue s \<or> scroll_pass up pg sd i st = Break Exhausted s" for s
    proof -
      from scroll_pass_effect [OF that] obtain arts new where
        "query_tweets pg i = Inr arts" "bookmarks s = bookmarks st @ new"
        "set new \<subseteq> set (parsed_tweets up arts)"
        by blast
      then have "bookmarks s = bookmarks st @ new \<and> set new \<subseteq> feed_records up pg"
        unfolding feed_records_def set_parsed_tweets by blast
      then show ?thesis ..
    qed
    show ?thesis
    proof (cases "scroll_pass up pg sd i st")
      case (Raise e)
      with False "1.prems" show ?thesis by (simp add: scroll_loop_unfold [of up pg m sd i])
    next
      case (Break ex' s)
      with False "1.prems" have eq: "s = st'" "ex' = ex"
        by (simp_all add: scroll_loop_unfold [of up pg m sd i])
      from scroll_pass_Break_kind [OF Break] show ?thesis
      proof
        assume "ex' = Cancelled"
        with Break scroll_pass_Cancelled [of up pg sd i st s] eq show ?thesis by simp
      next
        assume "ex' = Exhausted"
        with Break step [of s] eq show ?thesis by simp
      qed
    next
      case (Continue s)
      with False "1.prems" have "scroll_loop up pg m sd (Suc i) s = Inr (ex, j, st')"
        by (simp add: scroll_loop_unfold [of up pg m sd i])
      from "1.IH" [OF False Continue this] obtain new' where
        "bookmarks st' = bookmarks s @ new'" "set new' \<subseteq> feed_records up pg"
        by blast
      moreover from step [of s] Continue obtain new where
        "bookmarks s = bookmarks st @ new" "set new \<subseteq> feed_records up pg"
        by blast
      ultimately show ?thesis
        by (intro exI [of _ "new @ new'"]) simp
    qed
  qed
qed

text \<open>After the loop, \<open>seen_ids\<close> holds the keys of every pass that was processed.\<close>

lemma scroll_loop_seen:
  "scroll_loop up pg m sd i st = Inr (ex, j, st') \<Longrightarrow> 1 \<le> i \<Longrightarrow>
   seen_ids st \<subseteq> seen_ids st' \<and>
   (\<forall>p. i \<le> p \<and> (p < j \<or> (p = j \<and> ex \<noteq> Cancelled)) \<longrightarrow> pass_keys up pg p \<subseteq> seen_ids st')"
proof (induction up pg m sd i st rule: scroll_loop.induct)
  case (1 up pg m sd i st)
  show ?case
  proof (cases "m < int i")
    case True
    with "1.prems" show ?thesis by (auto simp: scroll_loop_unfold [of up pg m sd i])
  next
    case False
    show ?thesis
    proof (cases "scroll_pass up pg sd i st")
      case (Raise e)
      with False "1.prems" show ?thesis by (simp add: scroll_loop_unfold [of up pg m sd i])
    next
      case (Break ex' s)
      with False "1.prems" have eq: "s = st'" "ex' = ex" "j = i"
        by (simp_all add: scroll_loop_unfold [of up pg m sd i])
      from scroll_pass_Break_kind [OF Break] show ?thesis
      proof
        assume "ex' = Cancelled"
        with Break scroll_pass_Cancelled [of up pg sd i st s] eq show ?thesis by auto
      next
        assume "ex' = Exhausted"
        with Break scroll_pass_effect [of up pg sd i st s] eq show ?thesis by auto
      qed
    next
      case (Continue s)
      with False "1.prems" have loop: "scroll_loop up pg m sd (Suc i) s = Inr (ex, j, st')"
        by (simp add: scroll_loop_unfold [of up pg m sd i])
      from "1.IH" [OF False Continue loop] have
        ih: "seen_ids s \<subseteq> seen_ids st'"
        "\<forall>p. Suc i \<le> p \<and> (p < j \<or> (p = j \<and> ex \<noteq> Cancelled)) \<longrightarrow> pass_keys up pg p \<subseteq> seen_ids st'"
        by simp_all
      from scroll_pass_effect [of up pg sd i st s] Continue
      have s: "seen_ids s = seen_ids st \<union> pass_keys up pg i" by auto
      show ?thesis
      proof (intro conjI allI impI)
        from s ih(1) show "seen_ids st \<subseteq> seen_ids st'" by auto
        fix p assume p: "i \<le> p \<and> (p < j \<or> (p = j \<and> ex \<noteq> Cancelled))"
        show "pass_keys up pg p \<subseteq> seen_ids st'"
        proof (cases "p = i")
          case True
          with s ih(1) show ?thesis by auto
        next
          case False
          with p have "Suc i \<le> p" by simp
          with p ih(2) show ?thesis by blast
        qed
      qed
    qed
  qed
qed

lemma distinct_map_ex1:
  assumes "distinct (map f xs)" and "y \<in> f ` set xs"
  shows "\<exists>!i. i < length xs \<and> f (xs ! i) = y"
proof -
  from assms(2) obtain i where i: "i < length xs" "f (xs ! i) = y"
    by (auto simp: in_set_conv_nth)
  show ?thesis
  proof (rule ex1I [of _ i])
    from i show "i < length xs \<and> f (xs ! i) = y" by simp
    fix j assume "j < length xs \<and> f (xs ! j) = y"
    with i assms(1) show "j = i"
      by (auto simp: distinct_conv_nth)
  qed
qed

lemma collect_run_keys:
  assumes "collect_run up pg m sd na = Inr (Some tr)" and "processed tr p"
  shows "pass_keys up pg p \<subseteq> tid ` set (returned tr)"
proof -
  from assms(1) obtain st where
    loop: "scroll_loop up pg m sd 1 init_state = Inr (exit_kind tr, last_pass tr, st)"
    and ret: "returned tr =
           store (fetch_articles pg na (exit_kind tr = Cancelled \<or> sigint_late pg) (bookmarks st))"
    by (rule collect_run_loop)
  from scroll_loop_seen [OF loop] assms(2) have "pass_keys up pg p \<subseteq> seen_ids st"
    by (simp add: processed_def)
  moreover from scroll_loop_inv [OF loop] have "seen_ids st = tid ` set (bookmarks st)"
    by (simp add: loop_inv_def init_state_def)
  moreover from ret have "map tid (returned tr) = map tid (bookmarks st)"
    by (simp add: fetch_articles_map_tid)
  then have "tid ` set (returned tr) = tid ` set (bookmarks st)"
    by (metis list.set_map)
  ultimately show ?thesis by simp
qed

text \<open>
  C3, as the code has it.  A record with an empty \<open>tweet_url\<close> is deduplicated by the first
  80 characters of its text, the empty text included: when such a record is parsed in a pass
  that the run processed, the returned list holds exactly one record with that key.
\<close>

theorem fallback_key_exactly_once:
  assumes "collect_run up pg max_scrolls scroll_delay no_articles = Inr (Some tr)"
    and "processed tr p" and "query_tweets pg p = Inr arts" and "a \<in> set arts"
    and "parse_tweet up a = Inr t" and "tweet_url t = []"
  shows "\<exists>!i. i < length (returned tr) \<and> tid (returned tr ! i) = take 80 (tweet_text t)"
proof -
  from assms(3-5) have "tid t \<in> pass_keys up pg p"
    by (auto simp: pass_keys_def set_parsed_tweets)
  with collect_run_keys [OF assms(1,2)] have "tid t \<in> tid ` set (returned tr)" by blast
  moreover from assms(6) have "tid t = take 80 (tweet_text t)" by (simp add: tid_def)
  ultimately show ?thesis
    using distinct_map_ex1 [OF collect_run_distinct [OF assms(1)]] by simp
qed


theorem fallback_key_exactly_once_witness:
  "collect_run urlparse (feed_page blank_feed) 1 two_seconds True = Inr (Some blank_trace)
   \<and> processed blank_trace 1
   \<and> query_tweets (feed_page blank_feed) 1 = Inr [blank_art, blank_art]
   \<and> blank_art \<in> set [blank_art, blank_art]
   \<and> parse_tweet urlparse blank_art = Inr blank_tweet
   \<and> tweet_url blank_tweet = []
   \<and> (\<exists>!i. i < length (returned blank_trace)
             \<and> tid (returned blank_trace ! i) = take 80 (tweet_text blank_tweet))"
proof -
  have run: "collect_run urlparse (feed_page blank_feed) 1 two_seconds True = Inr (Some blank_trace)"
    by code_simp
  have pr: "processed blank_trace 1"
    by (simp add: processed_def blank_trace_def)
  have q: "query_tweets (feed_page blank_feed) 1 = Inr [blank_art, blank_art]"
    by (simp add: feed_page_def blank_feed_def)
  have m: "blank_art \<in> set [blank_art, blank_art]" by simp
  have pt: "parse_tweet urlparse blank_art = Inr blank_tweet"
    by code_simp
  have u: "tweet_url blank_tweet = []"
    by (simp add: blank_tweet_def plain_tweet_def)
  from fallback_key_exactly_once [OF run pr q m pt u] run pr q m pt u
  show ?thesis by blast
qed

text \<open>
  C3 as stated fails: one pass shows two items with neither a permalink nor a text, and
  only the first of the two records is appended.
\<close>

theorem blank_records_collapse:
  "query_tweets (feed_page blank_feed) 1 = Inr [blank_art, blank_art]
   \<and> parse_tweet urlparse blank_art = Inr blank_tweet
   \<and> tweet_url blank_tweet = [] \<and> tweet_text blank_tweet = []
   \<and> collect_bookmarks urlparse (feed_page blank_feed) 1 two_seconds True = Inr [blank_tweet]"
proof -
  have "query_tweets (feed_page blank_feed) 1 = Inr [blank_art, blank_art]"
    by (simp add: feed_page_def blank_feed_def)
  moreover have "parse_tweet urlparse blank_art = Inr blank_tweet"
    by code_simp
  moreover have "tweet_url blank_tweet = [] \<and> tweet_text blank_tweet = []"
    by (simp add: blank_tweet_def plain_tweet_def)
  moreover have "collect_bookmarks urlparse (feed_page blank_feed) 1 two_seconds True = Inr [blank_tweet]"
    by code_simp
  ultimately show ?thesis by simp
qed

lemma fetch_loop_writes: "writes (fetch_loop pg is fs) = writes fs @ is"
  by (induction "is" arbitrary: fs) (auto split: prod.splits)

lemma fetch_loop_untouched:
  "i \<notin> set is \<Longrightarrow> store (fetch_loop pg is fs) ! i = store fs ! i"
  by (induction "is" arbitrary: fs) (auto split: prod.splits)

lemma article_bookmarks_set:
  "distinct (article_bookmarks bs)"
  "set (article_bookmarks bs) = {i. i < length bs \<and> article_url (bs ! i) \<noteq> []}"
  by (auto simp: article_bookmarks_def)

lemma scroll_loop_prefix_kept:
  assumes "scroll_loop up pg m sd i st = Inr (ex, j, st')"
  shows "take (length (bookmarks st)) (bookmarks st') = bookmarks st"
  using scroll_loop_appends [OF assms] by auto

text \<open>
  C8.  The records of a run are the records \<open>_parse_tweet\<close> made of feed items.  The loop
  only appends to the list.  The article phase writes \<open>article_text\<close> and nothing else: the
  returned record at each position is the appended one up to \<open>article_text\<close>; no position
  is written twice; the positions written are those with an article URL, and none at all
  when article fetching is disabled or the run was cancelled; a record that is not written
  is returned as it was appended.
\<close>

theorem appended_records_frame:
  assumes "collect_run up pg max_scrolls scroll_delay no_articles = Inr (Some tr)"
  shows "set (appended tr) \<subseteq> feed_records up pg \<and>
         length (returned tr) = length (appended tr) \<and>
         (\<forall>i<length (appended tr).
            returned tr ! i = (appended tr ! i)\<lparr>article_text := article_text (returned tr ! i)\<rparr>) \<and>
         distinct (article_writes tr) \<and>
         set (article_writes tr) =
           (if no_articles \<or> exit_kind tr = Cancelled \<or> sigint_late pg then {}
            else {i. i < length (appended tr) \<and> article_url (appended tr ! i) \<noteq> []}) \<and>
         (\<forall>i<length (appended tr). i \<notin> set (article_writes tr) \<longrightarrow> returned tr ! i = appended tr ! i) \<and>
         (\<forall>i st ex j st'. scroll_loop up pg max_scrolls scroll_delay i st = Inr (ex, j, st') \<longrightarrow>
            take (length (bookmarks st)) (bookmarks st') = bookmarks st)"
proof -
  define stop where "stop = (exit_kind tr = Cancelled \<or> sigint_late pg)"
  from assms obtain st where
    loop: "scroll_loop up pg max_scrolls scroll_delay 1 init_state = Inr (exit_kind tr, last_pass tr, st)"
    and app: "appended tr = bookmarks st"
    and ret: "returned tr = store (fetch_articles pg no_articles stop (bookmarks st))"
    and wr: "article_writes tr = writes (fetch_articles pg no_articles stop (bookmarks st))"
    unfolding stop_def by (rule collect_run_loop)
  define fs0 where "fs0 = \<lparr>store = bookmarks st, writes = [], tabs = [], calls = 0\<rparr>"
  have s0: "store fs0 = bookmarks st" "writes fs0 = []" by (simp_all add: fs0_def)
  have on: "fetch_articles pg no_articles stop (bookmarks st) =
              fetch_loop pg (article_bookmarks (bookmarks st)) fs0"
    if "\<not> no_articles \<and> \<not> stop"
    using that unfolding fs0_def by (intro fetch_articles_on) simp_all
  have off: "fetch_articles pg no_articles stop (bookmarks st) = fs0"
    if "\<not> (\<not> no_articles \<and> \<not> stop)"
    using that unfolding fs0_def by (intro fetch_articles_off) simp
  from scroll_loop_appends [OF loop] have 1: "set (appended tr) \<subseteq> feed_records up pg"
    by (auto simp: app init_state_def)
  have 2: "length (returned tr) = length (appended tr)"
    by (simp add: ret app fetch_articles_length)
  have 3: "returned tr ! i = (appended tr ! i)\<lparr>article_text := article_text (returned tr ! i)\<rparr>"
    if "i < length (appended tr)" for i
  proof (cases "\<not> no_articles \<and> \<not> stop")
    case True
    from fetch_loop_frame [of i fs0 pg "article_bookmarks (bookmarks st)"] that
    show ?thesis by (simp add: ret on [OF True] app s0)
  next
    case False
    show ?thesis by (simp add: ret off [OF False] app s0)
  qed
  have wr': "article_writes tr =
               (if \<not> no_articles \<and> \<not> stop then article_bookmarks (bookmarks st) else [])"
  proof (cases "\<not> no_articles \<and> \<not> stop")
    case True
    have "article_writes tr = article_bookmarks (bookmarks st)"
      by (simp add: wr on [OF True] fetch_loop_writes s0)
    with True show ?thesis by simp
  next
    case False
    have "article_writes tr = []"
      by (simp add: wr off [OF False] s0)
    with False show ?thesis by auto
  qed
  have 4: "distinct (article_writes tr)"
    by (simp add: wr' article_bookmarks_set(1))
  have 5: "set (article_writes tr) =
           (if no_articles \<or> exit_kind tr = Cancelled \<or> sigint_late pg then {}
            else {i. i < length (appended tr) \<and> article_url (appended tr ! i) \<noteq> []})"
    by (auto simp: wr' article_bookmarks_set(2) app stop_def)
  have 6: "returned tr ! i = appended tr ! i" if "i \<notin> set (article_writes tr)" for i
  proof (cases "\<not> no_articles \<and> \<not> stop")
    case True
    with that have "i \<notin> set (article_bookmarks (bookmarks st))"
      by (simp add: wr')
    from fetch_loop_untouched [OF this, of pg fs0] show ?thesis
      by (simp add: ret on [OF True] app s0)
  next
    case False
    show ?thesis by (simp add: ret off [OF False] app s0)
  qed
  from 1 2 3 4 5 6 scroll_loop_prefix_kept show ?thesis
    by blast
qed

theorem appended_records_frame_witness:
  "collect_run urlparse article_page 1 two_seconds False = Inr (Some article_trace)
   \<and> length (returned article_trace) = length (appended article_trace)
   \<and> returned article_trace ! 0 = (appended article_trace ! 0)\<lparr>article_text := ''Body''\<rparr>
   \<and> returned article_trace ! 1 = appended article_trace ! 1
   \<and> article_writes article_trace = [0]"
proof -
  have run: "collect_run urlparse article_page 1 two_seconds False = Inr (Some article_trace)"
    by code_simp
  have "length (returned article_trace) = length (appended article_trace)"
    using appended_records_frame [OF run] by blast
  moreover have "returned article_trace ! 0 = (appended article_trace ! 0)\<lparr>article_text := ''Body''\<rparr>"
    by (simp add: article_trace_def)
  moreover have "returned article_trace ! 1 = appended article_trace ! 1"
    by (simp add: article_trace_def)
  moreover have "article_writes article_trace = [0]"
    by (simp add: article_trace_def)
  ultimately show ?thesis using run by blast
qed

section \<open>Properties of the item parser\<close>

lemma scan_anchors_step:
  "scan_anchors up (el # els) (aurl, raw) = Inr res \<Longrightarrow>
   (is_article_url up (or_empty el) = Inr True \<and>
      scan_anchors up els ((if aurl = [] then or_empty el else aurl), raw) = Inr res) \<or>
   (anchor_ok up (or_empty el) \<and> scan_anchors up els (aurl, insert (or_empty el) raw) = Inr res) \<or>
   (is_article_url up (or_empty el) = Inr False \<and> scan_anchors up els (aurl, raw) = Inr res)"
  by (auto simp: Let_def anchor_ok_def split: sum.splits bool.splits if_splits)

lemma scan_anchors_article:
  "scan_anchors up els (aurl0, raw0) = Inr (aurl, raw) \<Longrightarrow>
   is_article_url up [] \<noteq> Inr True \<Longrightarrow>
   aurl = (if aurl0 \<noteq> [] then aurl0 else first_article up (map or_empty els))"
proof (induction els arbitrary: aurl0 raw0)
  case Nil
  then show ?case by (simp add: first_article_def)
next
  case (Cons el els)
  from scan_anchors_step [OF Cons.prems(1)] show ?case
  proof (elim disjE conjE)
    assume art: "is_article_url up (or_empty el) = Inr True"
      and "scan_anchors up els ((if aurl0 = [] then or_empty el else aurl0), raw0) = Inr (aurl, raw)"
    from Cons.IH [OF this(2) Cons.prems(2)] art Cons.prems(2) show ?thesis
      by (auto simp: first_article_def)
  next
    assume ok: "anchor_ok up (or_empty el)"
      and "scan_anchors up els (aurl0, insert (or_empty el) raw0) = Inr (aurl, raw)"
    from Cons.IH [OF this(2) Cons.prems(2)] ok show ?thesis
      by (auto simp: first_article_def anchor_ok_def)
  next
    assume "is_article_url up (or_empty el) = Inr False"
      and "scan_anchors up els (aurl0, raw0) = Inr (aurl, raw)"
    from Cons.IH [OF this(2) Cons.prems(2)] this(1) show ?thesis
      by (auto simp: first_article_def)
  qed
qed

lemma first_article_is_article:
  "first_article up hrefs \<noteq> [] \<Longrightarrow> is_article_url up (first_article up hrefs) = Inr True"
  by (induction hrefs) (auto simp: first_article_def)

lemma scan_anchors_article_url:
  assumes "scan_anchors up els ([], raw0) = Inr (aurl, raw)" and "aurl \<noteq> []"
  shows "is_article_url up aurl = Inr True"
  using assms
proof (induction els arbitrary: raw0)
  case Nil
  then show ?case by simp
next
  case (Cons el els)
  from scan_anchors_step [OF Cons.prems(1)] show ?case
  proof (elim disjE conjE)
    assume art: "is_article_url up (or_empty el) = Inr True"
      and sc: "scan_anchors up els ((if [] = [] then or_empty el else []), raw0) = Inr (aurl, raw)"
    show ?thesis
    proof (cases "or_empty el = []")
      case True
      with sc Cons.IH [of raw0] Cons.prems(2) show ?thesis by simp
    next
      case False
      with sc have "scan_anchors up els (or_empty el, raw0) = Inr (aurl, raw)" by simp
      then have "aurl = or_empty el"
        using False by (induction els arbitrary: raw0)
          (auto simp: Let_def split: sum.splits bool.splits if_splits)
      with art show ?thesis by simp
    qed
  next
    assume "scan_anchors up els ([], insert (or_empty el) raw0) = Inr (aurl, raw)"
    from Cons.IH [OF this Cons.prems(2)] show ?thesis .
  next
    assume "scan_anchors up els ([], raw0) = Inr (aurl, raw)"
    from Cons.IH [OF this Cons.prems(2)] show ?thesis .
  qed
qed

lemma parse_tweet_Inr:
  assumes "parse_tweet up a = Inr r"
  obtains raw where
    "scan_anchors up (anchors a)
       ([], set (findall_urls (case text_el a of None \<Rightarrow> [] | Some t \<Rightarrow> t)))
     = Inr (article_url r, raw)"
    and "urls_raw r = sorted_list_of_set raw"
proof -
  from assms have ne: "art_error a = None"
    by (cases "art_error a") (simp_all add: parse_tweet_def)
  with assms obtain aurl raw where
    sc: "scan_anchors up (anchors a)
       ([], set (findall_urls (case text_el a of None \<Rightarrow> [] | Some t \<Rightarrow> t))) = Inr (aurl, raw)"
    by (cases "scan_anchors up (anchors a)
       ([], set (findall_urls (case text_el a of None \<Rightarrow> [] | Some t \<Rightarrow> t)))")
      (auto simp: parse_tweet_def Let_def)
  with assms ne have "article_url r = aurl" "urls_raw r = sorted_list_of_set raw"
    by (auto simp: parse_tweet_def Let_def)
  with sc show ?thesis by (intro that [of raw]) simp_all
qed

text \<open>The first article link among the anchors becomes \<open>article_url\<close>; later ones are ignored.\<close>

lemma parse_tweet_article_url:
  assumes "parse_tweet up a = Inr r" and "is_article_url up [] \<noteq> Inr True"
  shows "article_url r = first_article up (map or_empty (anchors a))"
proof -
  from assms(1) obtain raw where
    "scan_anchors up (anchors a)
       ([], set (findall_urls (case text_el a of None \<Rightarrow> [] | Some t \<Rightarrow> t)))
     = Inr (article_url r, raw)"
    by (rule parse_tweet_Inr)
  from scan_anchors_article [OF this assms(2)] show ?thesis by simp
qed

text \<open>What the anchor loop adds to \<open>raw_urls\<close>: the links that pass its test, and no other.\<close>

lemma scan_anchors_keep:
  "scan_anchors up (el # els) (aurl, raw) = Inr res \<Longrightarrow>
   (anchor_ok up (or_empty el) \<and> scan_anchors up els (aurl, insert (or_empty el) raw) = Inr res) \<or>
   (\<not> anchor_ok up (or_empty el) \<and> (\<exists>aurl'. scan_anchors up els (aurl', raw) = Inr res))"
  by (auto simp: Let_def anchor_ok_def split: sum.splits bool.splits if_splits)

lemma scan_anchors_raw_eq:
  "scan_anchors up els (aurl0, raw0) = Inr (aurl, raw) \<Longrightarrow>
   raw = raw0 \<union> {u \<in> set (map or_empty els). anchor_ok up u}"
proof (induction els arbitrary: aurl0 raw0)
  case Nil
  then show ?case by simp
next
  case (Cons el els)
  from scan_anchors_keep [OF Cons.prems] show ?case
  proof (elim disjE conjE exE)
    assume ok: "anchor_ok up (or_empty el)"
      and "scan_anchors up els (aurl0, insert (or_empty el) raw0) = Inr (aurl, raw)"
    from Cons.IH [OF this(2)] ok show ?thesis by auto
  next
    fix aurl'
    assume no: "\<not> anchor_ok up (or_empty el)"
      and "scan_anchors up els (aurl', raw0) = Inr (aurl, raw)"
    from Cons.IH [OF this(2)] no show ?thesis by auto
  qed
qed

text \<open>
  C5, as the code has it.  \<open>urls_raw\<close> is sorted and has no duplicates.  It holds every URL
  that the regular expression finds in the text, none of them filtered.  Any other element
  is an anchor link that is no article link and that contains \<open>t.co\<close> or has a netloc other
  than \<open>x.com\<close> and \<open>twitter.com\<close>.  The article URL, when there is one, is an element only
  when the regular expression finds it in the text.
\<close>

theorem urls_raw_sorted_filtered:
  assumes "parse_tweet up a = Inr r"
  shows "sorted (urls_raw r) \<and> distinct (urls_raw r) \<and>
         set (findall_urls (case text_el a of None \<Rightarrow> [] | Some t \<Rightarrow> t)) \<subseteq> set (urls_raw r) \<and>
         (\<forall>u\<in>set (urls_raw r).
            u \<notin> set (findall_urls (case text_el a of None \<Rightarrow> [] | Some t \<Rightarrow> t)) \<longrightarrow>
            u \<in> set (map or_empty (anchors a)) \<and> anchor_ok up u) \<and>
         (article_url r \<noteq> [] \<longrightarrow> article_url r \<in> set (urls_raw r) \<longrightarrow>
            article_url r \<in> set (findall_urls (case text_el a of None \<Rightarrow> [] | Some t \<Rightarrow> t)))"
proof -
  define found where "found = set (findall_urls (case text_el a of None \<Rightarrow> [] | Some t \<Rightarrow> t))"
  from assms obtain raw where
    sc: "scan_anchors up (anchors a) ([], found) = Inr (article_url r, raw)"
    and ur: "urls_raw r = sorted_list_of_set raw"
    unfolding found_def by (rule parse_tweet_Inr)
  from scan_anchors_raw_eq [OF sc] have
    raw: "raw = found \<union> {u \<in> set (map or_empty (anchors a)). anchor_ok up u}" .
  then have "finite raw" by (simp add: found_def)
  with ur have set_ur: "set (urls_raw r) = raw" and so: "sorted (urls_raw r)" "distinct (urls_raw r)"
    by simp_all
  have "article_url r \<in> found" if "article_url r \<noteq> []" "article_url r \<in> raw"
  proof (rule ccontr)
    assume "article_url r \<notin> found"
    with that(2) raw have "anchor_ok up (article_url r)" by blast
    moreover from scan_anchors_article_url [OF sc that(1)]
    have "is_article_url up (article_url r) = Inr True" .
    ultimately show False by (simp add: anchor_ok_def)
  qed
  with set_ur so raw show ?thesis
    unfolding found_def [symmetric] by blast
qed

theorem urls_raw_sorted_filtered_witness:
  "parse_tweet urlparse own_link_art = Inr own_link_tweet
   \<and> sorted (urls_raw own_link_tweet) \<and> distinct (urls_raw own_link_tweet)
   \<and> set (findall_urls ''see https://x.com/i/articles/9'') \<subseteq> set (urls_raw own_link_tweet)
   \<and> article_url own_link_tweet \<in> set (findall_urls ''see https://x.com/i/articles/9'')"
proof -
  have p: "parse_tweet urlparse own_link_art = Inr own_link_tweet"
    by code_simp
  have t: "text_el own_link_art = Some ''see https://x.com/i/articles/9''"
    by (simp add: own_link_art_def)
  from urls_raw_sorted_filtered [OF p]
  have w: "sorted (urls_raw own_link_tweet) \<and> distinct (urls_raw own_link_tweet)
    \<and> set (findall_urls ''see https://x.com/i/articles/9'') \<subseteq> set (urls_raw own_link_tweet)"
    unfolding t option.case by (elim conjE) (intro conjI; assumption)
  have f: "findall_urls ''see https://x.com/i/articles/9'' = [''https://x.com/i/articles/9'']"
    by code_simp
  have "article_url own_link_tweet \<in> set (findall_urls ''see https://x.com/i/articles/9'')"
    unfolding f by (simp add: own_link_tweet_def plain_tweet_def)
  with p w show ?thesis by (elim conjE) (intro conjI; assumption)
qed

text \<open>
  C5 as stated fails, on either way into \<open>urls_raw\<close>.  The text of an item spells out the
  link to its article on \<open>x.com\<close>: the regular expression finds it, and \<open>urls_raw\<close> holds a
  URL of the site's own domain that is the record's \<open>article_url\<close>.  And anchors that stay
  on the site get in: one with the netloc \<open>x.com\<close> that contains \<open>t.co\<close>, and one on
  \<open>www.x.com\<close>.
\<close>

theorem own_domain_urls_in_urls_raw:
  "parse_tweet urlparse own_link_art = Inr own_link_tweet
   \<and> urlparse ''https://x.com/i/articles/9'' = Inr \<lparr>netloc = ''x.com'', path = ''/i/articles/9''\<rparr>
   \<and> article_url own_link_tweet = ''https://x.com/i/articles/9''
   \<and> urls_raw own_link_tweet = [''https://x.com/i/articles/9'']
   \<and> parse_tweet urlparse own_anchor_art = Inr own_anchor_tweet
   \<and> urlparse ''https://x.com/search?q=t.co'' = Inr \<lparr>netloc = ''x.com'', path = ''/search''\<rparr>
   \<and> urlparse ''https://www.x.com/home'' = Inr \<lparr>netloc = ''www.x.com'', path = ''/home''\<rparr>
   \<and> urls_raw own_anchor_tweet = [''https://www.x.com/home'', ''https://x.com/search?q=t.co'']"
proof -
  have "parse_tweet urlparse own_link_art = Inr own_link_tweet"
    by code_simp
  moreover have "urlparse ''https://x.com/i/articles/9'' = Inr \<lparr>netloc = ''x.com'', path = ''/i/articles/9''\<rparr>"
    by code_simp
  moreover have "parse_tweet urlparse own_anchor_art = Inr own_anchor_tweet"
    by code_simp
  moreover have "urlparse ''https://x.com/search?q=t.co'' = Inr \<lparr>netloc = ''x.com'', path = ''/search''\<rparr>"
    by code_simp
  moreover have "urlparse ''https://www.x.com/home'' = Inr \<lparr>netloc = ''www.x.com'', path = ''/home''\<rparr>"
    by code_simp
  ultimately show ?thesis
    by (simp add: own_link_tweet_def own_anchor_tweet_def plain_tweet_def)
qed

text \<open>
  C6 fails on the code: the test of the domain is a test of the last characters of the
  netloc, so a link to an article page of another site whose name ends in \<open>x.com\<close> is
  taken for an article link of the site.
\<close>

theorem foreign_domain_article_url:
  "urlparse ''https://www.netflix.com/tudum/articles/stranger-things''
     = Inr \<lparr>netloc = ''www.netflix.com'', path = ''/tudum/articles/stranger-things''\<rparr>
   \<and> is_article_url urlparse ''https://www.netflix.com/tudum/articles/stranger-things'' = Inr True"
proof -
  have "urlparse ''https://www.netflix.com/tudum/articles/stranger-things''
     = Inr \<lparr>netloc = ''www.netflix.com'', path = ''/tudum/articles/stranger-things''\<rparr>"
    by code_simp
  moreover
  have "is_article_url urlparse ''https://www.netflix.com/tudum/articles/stranger-things'' = Inr True"
    by code_simp
  ultimately show ?thesis by simp
qed

section \<open>Properties of the link resolver and the exporter\<close>

text \<open>
  The mapping of a batch, key by key.  It depends on the set of submitted links only, so
  the order in which the lookups complete does not matter.
\<close>

lemma fold_update_lookup:
  "fold (\<lambda>u m. m(u \<mapsto> f u)) xs m0 = (\<lambda>u. if u \<in> set xs then Some (f u) else m0 u)"
  by (induction xs arbitrary: m0) (auto simp: fun_eq_iff)

lemma expand_urls_parallel_lookup:
  "expand_urls_parallel head urls u =
     (if u \<in> set urls \<and> str_in ''t.co/'' u then Some (expand_tco_url head u) else None)"
proof (cases "filter (str_in ''t.co/'') urls = []")
  case True
  then have "\<not> (u \<in> set urls \<and> str_in ''t.co/'' u)"
    by (auto simp: filter_empty_conv)
  with True show ?thesis by (simp add: expand_urls_parallel_def)
next
  case False
  then show ?thesis
    by (simp add: expand_urls_parallel_def fold_update_lookup)
qed

lemma expand_tco_url_fail: "head u = Inl e \<Longrightarrow> expand_tco_url head u = u"
  by (simp add: expand_tco_url_def)

lemma expanded_urls_fail:
  assumes "k < length (urls_raw b)" and "head (urls_raw b ! k) = Inl e"
  shows "expanded_urls (expand_urls_parallel head urls) b ! k = urls_raw b ! k"
  using assms
  by (simp add: expanded_urls_def expand_urls_parallel_lookup expand_tco_url_fail)

lemma map_of_jsonl_row:
  "map_of (jsonl_row m b) ''urls_expanded'' = Some (VList (expanded_urls m b))"
  by (simp add: jsonl_row_def base_row_def)

lemma map_of_csv_row:
  "map_of (csv_row m b) ''urls_expanded'' = Some (VStr (join '' | '' (expanded_urls m b)))"
  by (simp add: csv_row_def base_row_def)

text \<open>
  C4.  When the lookup for \<open>U\<close> fails, the mapping of the batch maps \<open>U\<close> to \<open>U\<close>, the other
  submitted links still get their destinations (the batch as a whole does not fail), and
  in the rows of every record that refers to \<open>U\<close> the entry of \<open>urls_expanded\<close> at the
  position of \<open>U\<close> is \<open>U\<close>, in the list of the JSONL row and in the joined CSV field.
\<close>

theorem resolution_fallback:
  assumes "head U = Inl e"
  shows "(U \<in> set submitted \<and> str_in ''t.co/'' U \<longrightarrow>
            expand_urls_parallel head submitted U = Some U) \<and>
         (\<forall>V final. V \<in> set submitted \<and> str_in ''t.co/'' V \<and> head V = Inr final \<longrightarrow>
            expand_urls_parallel head submitted V = Some final) \<and>
         (\<forall>bs i k. i < length bs \<and> k < length (urls_raw (bs ! i)) \<and> urls_raw (bs ! i) ! k = U \<longrightarrow>
            (\<exists>xs. map_of (snd (build_rows head bs) ! i) ''urls_expanded'' = Some (VList xs) \<and>
                  map_of (fst (build_rows head bs) ! i) ''urls_expanded''
                    = Some (VStr (join '' | '' xs)) \<and>
                  length xs = length (urls_raw (bs ! i)) \<and> xs ! k = U))"
proof (intro conjI allI impI)
  assume "U \<in> set submitted \<and> str_in ''t.co/'' U"
  with assms show "expand_urls_parallel head submitted U = Some U"
    by (simp add: expand_urls_parallel_lookup expand_tco_url_fail)
next
  fix V final
  assume "V \<in> set submitted \<and> str_in ''t.co/'' V \<and> head V = Inr final"
  then show "expand_urls_parallel head submitted V = Some final"
    by (simp add: expand_urls_parallel_lookup expand_tco_url_def)
next
  fix bs :: "tweet list" and i k
  assume a: "i < length bs \<and> k < length (urls_raw (bs ! i)) \<and> urls_raw (bs ! i) ! k = U"
  define m where "m = expand_urls_parallel head (all_tco bs)"
  define xs where "xs = expanded_urls m (bs ! i)"
  from a have rows: "snd (build_rows head bs) ! i = jsonl_row m (bs ! i)"
    "fst (build_rows head bs) ! i = csv_row m (bs ! i)"
    by (simp_all add: build_rows_def m_def Let_def)
  from a assms have "xs ! k = U"
    unfolding xs_def m_def using expanded_urls_fail [of k "bs ! i" head e] by simp
  moreover have "length xs = length (urls_raw (bs ! i))"
    by (simp add: xs_def expanded_urls_def)
  ultimately show "\<exists>xs. map_of (snd (build_rows head bs) ! i) ''urls_expanded'' = Some (VList xs) \<and>
                  map_of (fst (build_rows head bs) ! i) ''urls_expanded''
                    = Some (VStr (join '' | '' xs)) \<and>
                  length xs = length (urls_raw (bs ! i)) \<and> xs ! k = U"
    by (intro exI [of _ xs]) (simp add: rows map_of_jsonl_row map_of_csv_row xs_def)
qed

theorem resolution_fallback_witness:
  "flaky_head ''https://t.co/a'' = Inl RequestException
   \<and> expand_urls_parallel flaky_head [''https://t.co/a'', ''https://t.co/b''] ''https://t.co/a''
       = Some ''https://t.co/a''
   \<and> expand_urls_parallel flaky_head [''https://t.co/a'', ''https://t.co/b''] ''https://t.co/b''
       = Some ''https://example.com/page''
   \<and> map_of (snd (build_rows flaky_head [linked_tweet]) ! 0) ''urls_expanded''
       = Some (VList [''https://t.co/a'', ''https://example.com/page''])
   \<and> map_of (fst (build_rows flaky_head [linked_tweet]) ! 0) ''urls_expanded''
       = Some (VStr ''https://t.co/a | https://example.com/page'')"
proof -
  have f: "flaky_head ''https://t.co/a'' = Inl RequestException"
    by (simp add: flaky_head_def)
  have "expand_urls_parallel flaky_head [''https://t.co/a'', ''https://t.co/b''] ''https://t.co/a''
       = Some ''https://t.co/a''"
    using resolution_fallback [where head = flaky_head and U = "''https://t.co/a''"
        and submitted = "[''https://t.co/a'', ''https://t.co/b'']", OF f]
    by (simp add: startswith_def)
  moreover have "expand_urls_parallel flaky_head [''https://t.co/a'', ''https://t.co/b''] ''https://t.co/b''
       = Some ''https://example.com/page''"
    by code_simp
  moreover have "map_of (snd (build_rows flaky_head [linked_tweet]) ! 0) ''urls_expanded''
       = Some (VList [''https://t.co/a'', ''https://example.com/page''])"
    by code_simp
  moreover have "map_of (fst (build_rows flaky_head [linked_tweet]) ! 0) ''urls_expanded''
       = Some (VStr ''https://t.co/a | https://example.com/page'')"
    by code_simp
  ultimately show ?thesis using f by simp
qed

section \<open>Properties of the JSON lines\<close>



lemma cons_fst_Some [simp]: "cons_fst x (Some (xs, r)) = Some (x # xs, r)"
  by (simp add: cons_fst_def)




























text \<open>The members of an object, and the whole object.\<close>

lemma member_text_head: "\<exists>t. member_text kv @ r = CHR 0x22 # t"
  by (simp add: member_text_def dumps_str_def)





















section \<open>Properties of the article fetcher\<close>

text \<open>The function returns the empty string whenever the tab does not end up closed.\<close>

lemma fetch_failure_empty:
  "snd (fetch_article_content new_tab url) \<noteq> Closed \<Longrightarrow> fst (fetch_article_content new_tab url) = []"
  by (auto simp: fetch_article_content_def Let_def split: option.splits sum.splits)

text \<open>
  C7 fails on the code: when the navigation of the auxiliary tab times out, the function
  returns the empty string, and the tab it opened is left open.
\<close>

theorem fetch_timeout_leaves_tab_open:
  "fetch_article_content (\<lambda>url. timeout_tab) ''https://x.com/i/articles/9'' = ([], LeftOpen)"
  by (simp add: fetch_article_content_def timeout_tab_def empty_tab_def)

section \<open>Properties of the command line\<close>










end
